theory Spec2Isabelle
  imports Complex_Main
begin

section \<open>Quartz music player: playlist store and playback controller\<close>

text \<open>
  A shallow embedding of the state-carrying methods of class \<open>QuartzPlayer\<close> in
  \<open>src/code.py\<close>. The attributes of the object become the fields of the record
  \<open>player\<close>; every method becomes a function from the old state to the new one.

  What lies outside the class is taken as input:
  \<^item> the audio transport (\<open>pygame.mixer.music\<close>) is a log of the calls issued to it,
    field \<open>calls\<close>; whether \<open>load\<close> succeeds and what \<open>get_pos\<close> reports are inputs;
  \<^item> the metadata probe \<open>get_length_fallback\<close> is a function of the path (\<open>probe\<close>),
    and so is \<open>os.path.basename\<close> (\<open>basename\<close>);
  \<^item> the list box is the toolkit's: its selection is an argument of \<open>remove_selected\<close>
    and of \<open>play_selected\<close>;
  \<^item> \<open>random.randrange\<close> is an arbitrary draw \<open>r\<close>, reduced into the range;
  \<^item> the playlist file is a value of type \<open>disk\<close>: \<open>json.dump\<close> and \<open>json.load\<close>
    are taken to be inverse on lists of strings.
  Python's unbounded integers are \<open>int\<close>. A Python float is carried by the real number
  it stands for, and every operation on floats rounds its exact result to the nearest
  double, ties to even (\<open>round_double\<close>), as IEEE 754 arithmetic does. Infinities and
  NaN have no counterpart: a result beyond the largest double is outside the model.
\<close>

subsection \<open>Data\<close>

datatype repeat_mode = Off | All | One

datatype transport_call =
    Load string
  | Play "real option"
  | Pause
  | Unpause
  | Stop
  | SetVolume real

datatype error = IndexError | TypeError

text \<open>The value a Python call evaluates to, where a claim speaks about it.\<close>

datatype pyval = PyNone | PyBool bool

text \<open>What \<open>load_playlist\<close> finds on disk: no file; a file that is not JSON; a JSON
  value that cannot be iterated (\<open>null\<close>, a boolean, a number); or a value whose
  iteration yields the strings given: an array of strings, and likewise the keys of an
  object or the characters of a string. An array that holds a value other than a string
  would put that value into the playlist, which the state type here cannot hold.\<close>

datatype disk = NoFile | Unparsable | NotIterable | PathList "string list"

record env =
  probe :: "string \<Rightarrow> real"
  loadable :: "string \<Rightarrow> bool"
  basename :: "string \<Rightarrow> string"

record player =
  playlist :: "string list"
  idx :: "int option"
  playing :: bool
  paused :: bool
  length_sec :: real
  shuffle :: bool
  repeat :: repeat_mode
  manual_seek_pos :: "real option"
  vol_var :: real
  curr_lbl :: string
  total_lbl :: string
  slider :: real
  calls :: "transport_call list"

subsection \<open>Double arithmetic\<close>

text \<open>The binary exponent of a positive real: \<open>2 ^ ilog2 a \<le> a < 2 ^ (ilog2 a + 1)\<close>.\<close>

function ilog2 :: "real \<Rightarrow> int" where
  "ilog2 a = (if a \<le> 0 then 0
              else if 2 \<le> a then ilog2 (a / 2) + 1
              else if a < 1 then ilog2 (a * 2) - 1
              else 0)"
  by pat_completeness auto
termination
proof (relation "measure (\<lambda>a. if 1 \<le> a then nat \<lfloor>a\<rfloor> else nat \<lceil>1 / a\<rceil> + 1)")
  show "wf (measure (\<lambda>a. if 1 \<le> a then nat \<lfloor>a\<rfloor> else nat \<lceil>1 / a\<rceil> + 1))" by simp
next
  fix a :: real
  assume "\<not> a \<le> 0" "2 \<le> a"
  then have "\<lfloor>a / 2\<rfloor> < \<lfloor>a\<rfloor>" "0 \<le> \<lfloor>a / 2\<rfloor>" by linarith+
  then show "(a / 2, a) \<in> measure (\<lambda>a. if 1 \<le> a then nat \<lfloor>a\<rfloor> else nat \<lceil>1 / a\<rceil> + 1)"
    using \<open>2 \<le> a\<close> by simp
next
  fix a :: real
  assume a: "\<not> a \<le> 0" "\<not> 2 \<le> a" "a < 1"
  show "(a * 2, a) \<in> measure (\<lambda>a. if 1 \<le> a then nat \<lfloor>a\<rfloor> else nat \<lceil>1 / a\<rceil> + 1)"
  proof (cases "1 \<le> a * 2")
    case True
    have "1 < 1 / a" using a by simp
    then have "2 \<le> \<lceil>1 / a\<rceil>" by linarith
    moreover have "\<lfloor>a * 2\<rfloor> = 1" using True a by linarith
    ultimately show ?thesis using True a by simp
  next
    case False
    define z where "z = 1 / (a * 2)"
    have z: "1 < z" "1 / a = 2 * z" using False a by (simp_all add: z_def field_simps)
    have "real_of_int \<lceil>z\<rceil> < z + 1" by linarith
    also have "\<dots> \<le> 2 * z" using z(1) by simp
    also have "\<dots> \<le> real_of_int \<lceil>2 * z\<rceil>" by linarith
    finally have "\<lceil>z\<rceil> < \<lceil>2 * z\<rceil>" by simp
    moreover have "0 < \<lceil>z\<rceil>" using z(1) by linarith
    ultimately have "nat \<lceil>z\<rceil> + 1 < nat \<lceil>2 * z\<rceil> + 1" by linarith
    then have "nat \<lceil>1 / (a * 2)\<rceil> + 1 < nat \<lceil>1 / a\<rceil> + 1"
      unfolding z(2) z_def [symmetric] .
    moreover have "\<not> 1 \<le> a" using a by simp
    ultimately show ?thesis using False unfolding in_measure by (simp only: if_False)
  qed
qed

declare ilog2.simps [simp del]

definition pow2 :: "int \<Rightarrow> real" where
  "pow2 k = (if 0 \<le> k then 2 ^ nat k else 1 / 2 ^ nat (- k))"

text \<open>The spacing of the doubles around a positive real: 52 fraction bits below the
  leading one, and the fixed spacing of the subnormal range below \<open>2 ^ - 1022\<close>.\<close>

definition ulp :: "real \<Rightarrow> real" where
  "ulp a = pow2 (max (ilog2 a) (- 1022) - 52)"

definition round_half_even :: "real \<Rightarrow> int" where
  "round_half_even m =
     (if m - of_int \<lfloor>m\<rfloor> < 1 / 2 then \<lfloor>m\<rfloor>
      else if 1 / 2 < m - of_int \<lfloor>m\<rfloor> then \<lfloor>m\<rfloor> + 1
      else if even \<lfloor>m\<rfloor> then \<lfloor>m\<rfloor> else \<lfloor>m\<rfloor> + 1)"

text \<open>The double nearest to a real number, ties to even: what a float literal denotes
  and what every float operation returns for its exact result.\<close>

definition round_double :: "real \<Rightarrow> real" where
  "round_double x =
     (if x = 0 then 0
      else sgn x * (of_int (round_half_even (\<bar>x\<bar> / ulp \<bar>x\<bar>)) * ulp \<bar>x\<bar>))"

text \<open>Python's \<open>/\<close>, \<open>*\<close> and \<open>-\<close> on floats. The divisors in the code are the constants
  100.0 and 1000.0 or a length guarded to be positive.\<close>

definition fdiv :: "real \<Rightarrow> real \<Rightarrow> real" where
  "fdiv x y = round_double (x / y)"

definition fmul :: "real \<Rightarrow> real \<Rightarrow> real" where
  "fmul x y = round_double (x * y)"

definition fsub :: "real \<Rightarrow> real \<Rightarrow> real" where
  "fsub x y = round_double (x - y)"

subsection \<open>The initial state\<close>

text \<open>The state \<open>__init__\<close> builds (lines 114-121, 207-211, 231). Where the slider
  stands before its first \<open>set\<close> is the toolkit's choice; it is taken as 0, and nothing
  below depends on it.\<close>

definition init :: player where
  "init = \<lparr> playlist = [], idx = None, playing = False, paused = False,
            length_sec = 0, shuffle = False, repeat = Off, manual_seek_pos = None,
            vol_var = round_double (85 / 100), curr_lbl = ''00:00'', total_lbl = ''/ 00:00'', slider = 0,
            calls = [] \<rparr>"

subsection \<open>Helpers\<close>

text \<open>Python's truth value of a float followed by the positivity test: \<open>x and x > 0\<close>.\<close>

definition known :: "real \<Rightarrow> bool" where
  "known x = (x \<noteq> 0 \<and> x > 0)"

text \<open>\<open>int(x)\<close> on a float truncates towards zero.\<close>

definition py_int :: "real \<Rightarrow> int" where
  "py_int x = (if 0 \<le> x then \<lfloor>x\<rfloor> else \<lceil>x\<rceil>)"

definition digit_char :: "nat \<Rightarrow> char" where
  "digit_char d = ''0123456789'' ! d"

fun str_nat :: "nat \<Rightarrow> string" where
  "str_nat n = (if n < 10 then [digit_char n] else str_nat (n div 10) @ [digit_char (n mod 10)])"

definition str_int :: "int \<Rightarrow> string" where
  "str_int i = (if i < 0 then CHR ''-'' # str_nat (nat (- i)) else str_nat (nat i))"

text \<open>The format \<open>{:02d}\<close>: at least two characters, padded with zeros.\<close>

definition fmt02d :: "int \<Rightarrow> string" where
  "fmt02d i = (if 0 \<le> i \<and> i < 10 then CHR ''0'' # str_int i else str_int i)"

text \<open>\<open>format_time\<close> (lines 42-47); \<open>//\<close> and \<open>%\<close> round towards minus infinity, as
  \<open>div\<close> and \<open>mod\<close> on \<open>int\<close> do. The \<open>except\<close> branch needs a value \<open>int\<close> rejects
  (NaN, infinity), which no real number is.\<close>

definition format_time :: "real \<Rightarrow> string" where
  "format_time sec = (let s = py_int sec in fmt02d (s div 60) @ '':'' @ fmt02d (s mod 60))"

text \<open>Subscripting a list with a Python integer, as in \<open>self.playlist[self.idx]\<close>:
  an index below zero is taken relative to the end of the list, and an index that
  falls outside on either side raises.\<close>

definition py_index :: "'a list \<Rightarrow> int \<Rightarrow> error + 'a" where
  "py_index xs i =
     (if 0 \<le> i \<and> i < int (length xs) then Inr (xs ! nat i)
      else if i < 0 \<and> - int (length xs) \<le> i then Inr (xs ! nat (int (length xs) + i))
      else Inl IndexError)"

subsection \<open>Playlist operations\<close>

text \<open>\<open>stop_song\<close> (lines 436-442).\<close>

definition stop_song :: "player \<Rightarrow> player" where
  "stop_song s = s\<lparr> calls := calls s @ [Stop], playing := False, paused := False,
                    slider := 0, curr_lbl := ''00:00'' \<rparr>"

text \<open>The loop of \<open>_add_paths\<close> (lines 279-284) over the playlist and the flag \<open>added\<close>.\<close>

fun add_loop :: "string list \<Rightarrow> string list \<Rightarrow> bool \<Rightarrow> string list \<times> bool" where
  "add_loop [] pl added = (pl, added)"
| "add_loop (p # ps) pl added =
     (if p \<noteq> [] \<and> p \<notin> set pl then add_loop ps (pl @ [p]) True else add_loop ps pl added)"

text \<open>\<open>_add_paths\<close> (lines 278-286). The method has no \<open>return\<close> statement, so the call
  evaluates to \<open>None\<close>.\<close>

definition add_paths :: "string list \<Rightarrow> player \<Rightarrow> pyval \<times> player" where
  "add_paths paths s =
     (case add_loop paths (playlist s) False of
        (pl, added) \<Rightarrow>
          (PyNone,
           if added \<and> idx s = None then s\<lparr> playlist := pl, idx := Some 0 \<rparr>
           else s\<lparr> playlist := pl \<rparr>))"

text \<open>\<open>remove_selected\<close> (lines 288-299); \<open>sel\<close> is \<open>listbox.curselection()\<close>.
  \<open>pop(i)\<close> raises \<open>IndexError\<close> outside the list, before anything else changes.\<close>

definition remove_selected :: "nat list \<Rightarrow> player \<Rightarrow> error + player" where
  "remove_selected sel s =
     (case sel of
        [] \<Rightarrow> Inr s
      | i # _ \<Rightarrow>
          if i < length (playlist s) then
            (let s1 = s\<lparr> playlist := take i (playlist s) @ drop (Suc i) (playlist s) \<rparr>
             in if idx s1 = Some (int i) then Inr ((stop_song s1)\<lparr> idx := None \<rparr>)
                else (case idx s1 of
                        None \<Rightarrow> Inr s1
                      | Some c \<Rightarrow> if int i < c then Inr (s1\<lparr> idx := Some (c - 1) \<rparr>) else Inr s1))
          else Inl IndexError)"

text \<open>\<open>clear_playlist\<close> (lines 301-305).\<close>

definition clear_playlist :: "player \<Rightarrow> player" where
  "clear_playlist s = stop_song (s\<lparr> playlist := [], idx := None \<rparr>)"

text \<open>\<open>save_playlist\<close> (lines 307-313): the new content of the file; \<open>io_ok\<close> is False
  when opening the file raises, and then nothing is written.\<close>

definition save_playlist :: "bool \<Rightarrow> player \<Rightarrow> disk \<Rightarrow> disk" where
  "save_playlist io_ok s d = (if io_ok then PathList (playlist s) else d)"

text \<open>\<open>load_playlist\<close> (lines 315-326): a missing file returns early, and a file that
  does not parse raises inside \<open>json.load\<close>, before \<open>clear_playlist\<close>. A value that
  cannot be iterated raises in the loop of \<open>_add_paths\<close>, after \<open>clear_playlist\<close> has run;
  the handler of line 325 catches both.\<close>

definition load_playlist :: "disk \<Rightarrow> player \<Rightarrow> player" where
  "load_playlist d s =
     (case d of
        NoFile \<Rightarrow> s
      | Unparsable \<Rightarrow> s
      | NotIterable \<Rightarrow> clear_playlist s
      | PathList data \<Rightarrow> snd (add_paths data (clear_playlist s)))"

subsection \<open>Playback\<close>

text \<open>\<open>_load_track\<close> (lines 370-391): the flag returned and the new state.\<close>

definition load_track :: "env \<Rightarrow> int option \<Rightarrow> player \<Rightarrow> bool \<times> player" where
  "load_track e io s =
     (case io of
        None \<Rightarrow> (False, s)
      | Some i \<Rightarrow>
          if i < 0 \<or> i \<ge> int (length (playlist s)) then (False, s)
          else
            (let path = playlist s ! nat i;
                 s1 = s\<lparr> calls := calls s @ [Load path] \<rparr>
             in if \<not> loadable e path then (False, s1)
                else
                  (let l = probe e path
                   in (True, s1\<lparr> length_sec := l,
                                 total_lbl := (if known l then ''/ '' @ format_time l else ''/ 00:00''),
                                 slider := 0 \<rparr>))))"

text \<open>\<open>start_playback\<close> (lines 406-417).\<close>

definition start_playback :: "env \<Rightarrow> player \<Rightarrow> player" where
  "start_playback e s =
     (if idx s = None then s
      else (case load_track e (idx s) s of
              (ok, s1) \<Rightarrow>
                if \<not> ok then s1
                else s1\<lparr> calls := calls s1 @ [Play None, SetVolume (vol_var s1)],
                         playing := True, paused := False \<rparr>))"

text \<open>\<open>play_selected\<close> (lines 393-404); \<open>sel\<close> is the text of the selected row of the
  list box, if a row is selected. The loop takes the first playlist entry whose base
  name is that text and leaves the index alone when there is none.\<close>

fun first_match :: "('a \<Rightarrow> bool) \<Rightarrow> 'a list \<Rightarrow> nat \<Rightarrow> nat option" where
  "first_match P [] i = None"
| "first_match P (x # xs) i = (if P x then Some i else first_match P xs (Suc i))"

definition play_selected :: "env \<Rightarrow> string option \<Rightarrow> player \<Rightarrow> player" where
  "play_selected e sel s =
     start_playback e
       (case sel of
          Some name \<Rightarrow>
            (case first_match (\<lambda>p. basename e p = name) (playlist s) 0 of
               Some i \<Rightarrow> s\<lparr> idx := Some (int i) \<rparr>
             | None \<Rightarrow> s)
        | None \<Rightarrow> if idx s = None \<and> playlist s \<noteq> [] then s\<lparr> idx := Some 0 \<rparr> else s)"

text \<open>\<open>play_pause\<close> (lines 419-434).\<close>

definition play_pause :: "env \<Rightarrow> player \<Rightarrow> player" where
  "play_pause e s =
     (if playlist s = [] then s
      else if \<not> playing s then
        start_playback e (if idx s = None then s\<lparr> idx := Some 0 \<rparr> else s)
      else if paused s then s\<lparr> calls := calls s @ [Unpause], paused := False \<rparr>
      else s\<lparr> calls := calls s @ [Pause], paused := True \<rparr>)"

text \<open>\<open>next_song\<close> (lines 444-460); \<open>r\<close> is the random draw.\<close>

definition next_song :: "env \<Rightarrow> nat \<Rightarrow> player \<Rightarrow> player" where
  "next_song e r s =
     (if playlist s = [] then s
      else if shuffle s then
        start_playback e (s\<lparr> idx := Some (int (r mod length (playlist s))) \<rparr>)
      else (case idx s of
              None \<Rightarrow> start_playback e (s\<lparr> idx := Some 0 \<rparr>)
            | Some i \<Rightarrow>
                if i + 1 \<ge> int (length (playlist s)) then
                  (if repeat s = All then start_playback e (s\<lparr> idx := Some 0 \<rparr>)
                   else stop_song (s\<lparr> idx := Some (i + 1) \<rparr>))
                else start_playback e (s\<lparr> idx := Some (i + 1) \<rparr>)))"

text \<open>\<open>next_song\<close> stops exactly when the playlist is not empty, shuffle is off, the
  index cannot advance and the repeat mode is not \<open>all\<close>.\<close>

definition next_stops :: "player \<Rightarrow> bool" where
  "next_stops s = (playlist s \<noteq> [] \<and> \<not> shuffle s \<and> repeat s \<noteq> All
                   \<and> (case idx s of None \<Rightarrow> False
                       | Some i \<Rightarrow> int (length (playlist s)) \<le> i + 1))"

text \<open>\<open>prev_song\<close> (lines 462-466). Under repeat-all the subtraction \<open>self.idx - 1\<close> is
  evaluated on \<open>None\<close> when no index is set, which raises \<open>TypeError\<close>; the other branch
  reads \<open>self.idx or 0\<close>.\<close>

definition prev_song :: "env \<Rightarrow> player \<Rightarrow> error + player" where
  "prev_song e s =
     (if playlist s = [] then Inr s
      else if repeat s = All then
        (case idx s of
           None \<Rightarrow> Inl TypeError
         | Some i \<Rightarrow>
             Inr (start_playback e (s\<lparr> idx := Some ((i - 1) mod int (length (playlist s))) \<rparr>)))
      else
        Inr (start_playback e
               (s\<lparr> idx := Some (max 0 ((case idx s of None \<Rightarrow> 0 | Some i \<Rightarrow> i) - 1)) \<rparr>)))"

text \<open>\<open>_on_seek\<close> (lines 469-515); \<open>val\<close> is the slider's value, 0 to 100.\<close>

definition on_seek :: "env \<Rightarrow> real \<Rightarrow> player \<Rightarrow> error + player" where
  "on_seek e val s =
     (if \<not> playing s then Inr s
      else (case idx s of
              None \<Rightarrow> Inr s
            | Some i \<Rightarrow>
                if i \<ge> int (length (playlist s)) then Inr s
                else (case py_index (playlist s) i of
                        Inl err \<Rightarrow> Inl err
                      | Inr path \<Rightarrow>
                          (let len = (if known (length_sec s) then length_sec s else probe e path);
                               sec = (if known len then fmul (fdiv val 100) len else val);
                               s1 = s\<lparr> calls := calls s @ [Play (Some sec)] \<rparr>;
                               new_len = probe e path;
                               s2 = (if known new_len
                                     then s1\<lparr> length_sec := new_len,
                                              total_lbl := ''/ '' @ format_time new_len \<rparr>
                                     else s1);
                               s3 = s2\<lparr> curr_lbl := format_time sec,
                                        slider := (if known (length_sec s2)
                                                   then fmul (fdiv sec (length_sec s2)) 100
                                                   else val) \<rparr>
                           in Inr (s3\<lparr> manual_seek_pos := Some sec \<rparr>)))))"

text \<open>\<open>set_volume\<close> (lines 518-522), called by the volume slider after it has stored its
  new value \<open>v\<close> in \<open>vol_var\<close>.\<close>

definition set_volume :: "real \<Rightarrow> player \<Rightarrow> player" where
  "set_volume v s = s\<lparr> vol_var := v, calls := calls s @ [SetVolume v] \<rparr>"

text \<open>\<open>toggle_shuffle\<close> and \<open>cycle_repeat\<close> (lines 524-534).\<close>

definition toggle_shuffle :: "player \<Rightarrow> player" where
  "toggle_shuffle s = s\<lparr> shuffle := \<not> shuffle s \<rparr>"

definition cycle_repeat :: "player \<Rightarrow> player" where
  "cycle_repeat s =
     (if repeat s = Off then s\<lparr> repeat := All \<rparr>
      else if repeat s = All then s\<lparr> repeat := One \<rparr>
      else s\<lparr> repeat := Off \<rparr>)"

subsection \<open>The refresh tick\<close>

text \<open>The position a tick works with (lines 552-558): the pending manual position when
  there is one, else what the transport reports, never negative. \<open>get_pos\<close> returns
  the milliseconds \<open>ms\<close> as a machine integer, which converts to a double exactly before
  the division by \<open>1000.0\<close>.\<close>

definition tick_pos :: "int \<Rightarrow> player \<Rightarrow> real" where
  "tick_pos ms s =
     (let pos = (case manual_seek_pos s of Some p \<Rightarrow> p | None \<Rightarrow> fdiv (real_of_int ms) 1000)
      in if pos < 0 then 0 else pos)"

text \<open>The end-of-track test of line 560. The literal \<open>0.4\<close> is the double nearest to
  four tenths, and the subtraction rounds.\<close>

definition track_ended :: "player \<Rightarrow> real \<Rightarrow> bool" where
  "track_ended s pos =
     (length_sec s \<noteq> 0 \<and> pos \<ge> fsub (length_sec s) (round_double (4 / 10)))"

text \<open>\<open>_update_loop\<close> (lines 549-577), one tick.\<close>

definition update_loop :: "env \<Rightarrow> nat \<Rightarrow> int \<Rightarrow> player \<Rightarrow> player" where
  "update_loop e r ms s =
     (if playing s \<and> \<not> paused s then
        (let pos = tick_pos ms s;
             s1 = s\<lparr> manual_seek_pos := None \<rparr>
         in if track_ended s1 pos then
              (if repeat s1 = One then s1\<lparr> calls := calls s1 @ [Play None] \<rparr>
               else next_song e r s1)
            else
              (let s2 = (if known (length_sec s1)
                         then s1\<lparr> slider := fmul (fdiv pos (length_sec s1)) 100 \<rparr> else s1)
               in s2\<lparr> curr_lbl := format_time pos \<rparr>))
      else s)"

subsection \<open>Sequences of playlist operations\<close>

datatype op = Add "string list" | Remove nat

fun apply_op :: "op \<Rightarrow> player \<Rightarrow> error + player" where
  "apply_op (Add paths) s = Inr (snd (add_paths paths s))"
| "apply_op (Remove i) s = remove_selected [i] s"

fun exec_ops :: "op list \<Rightarrow> player \<Rightarrow> error + player" where
  "exec_ops [] s = Inr s"
| "exec_ops (x # xs) s = (case apply_op x s of Inl err \<Rightarrow> Inl err | Inr s' \<Rightarrow> exec_ops xs s')"

text \<open>The current index is absent or points into the playlist.\<close>

definition idx_valid :: "player \<Rightarrow> bool" where
  "idx_valid s = (case idx s of None \<Rightarrow> True | Some i \<Rightarrow> 0 \<le> i \<and> i < int (length (playlist s)))"

text \<open>The spec's reading of \<open>add\<close>: the paths to append are the non-empty input paths that
  the playlist does not hold, each at its first occurrence.\<close>

definition new_paths :: "string list \<Rightarrow> string list \<Rightarrow> string list" where
  "new_paths pl paths = rev (remdups (rev (filter (\<lambda>p. p \<noteq> [] \<and> p \<notin> set pl) paths)))"

subsection \<open>The states the player can reach\<close>

text \<open>Every method that changes the state, called with any argument and in any
  environment. A call that raises leaves the state as it was.\<close>

inductive reachable :: "player \<Rightarrow> bool" where
  r_init: "reachable init"
| r_add: "reachable s \<Longrightarrow> reachable (snd (add_paths paths s))"
| r_remove: "reachable s \<Longrightarrow> remove_selected sel s = Inr s' \<Longrightarrow> reachable s'"
| r_clear: "reachable s \<Longrightarrow> reachable (clear_playlist s)"
| r_load: "reachable s \<Longrightarrow> reachable (load_playlist d s)"
| r_play_selected: "reachable s \<Longrightarrow> reachable (play_selected e name s)"
| r_play_pause: "reachable s \<Longrightarrow> reachable (play_pause e s)"
| r_stop: "reachable s \<Longrightarrow> reachable (stop_song s)"
| r_next: "reachable s \<Longrightarrow> reachable (next_song e r s)"
| r_prev: "reachable s \<Longrightarrow> prev_song e s = Inr s' \<Longrightarrow> reachable s'"
| r_seek: "reachable s \<Longrightarrow> on_seek e val s = Inr s' \<Longrightarrow> reachable s'"
| r_volume: "reachable s \<Longrightarrow> reachable (set_volume v s)"
| r_shuffle: "reachable s \<Longrightarrow> reachable (toggle_shuffle s)"
| r_repeat: "reachable s \<Longrightarrow> reachable (cycle_repeat s)"
| r_tick: "reachable s \<Longrightarrow> reachable (update_loop e r ms s)"

subsection \<open>Example inputs\<close>

text \<open>A probe that reports three minutes for every file, a transport that loads
  every file, and paths without a directory part.\<close>

definition demo_env :: env where
  "demo_env = \<lparr> probe = (\<lambda>_. 180), loadable = (\<lambda>_. True), basename = (\<lambda>p. p) \<rparr>"

text \<open>One track added and started with the play button; then paused.\<close>

definition demo_playing :: player where
  "demo_playing = play_pause demo_env (snd (add_paths [''a.mp3''] init))"

definition demo_paused :: player where
  "demo_paused = play_pause demo_env demo_playing"

text \<open>Two tracks added and nothing else done.\<close>

definition demo_two :: player where
  "demo_two = snd (add_paths [''a.mp3'', ''b.mp3''] init)"

text \<open>Two tracks added, the current one removed, repeat switched to \<open>all\<close>.\<close>

definition demo_removed :: player where
  "demo_removed =
     (case remove_selected [0] (snd (add_paths [''a.mp3'', ''b.mp3''] init)) of
        Inr s \<Rightarrow> cycle_repeat s
      | Inl _ \<Rightarrow> init)"

text \<open>Three tracks with the last one current.\<close>

definition demo_three :: player where
  "demo_three = init\<lparr> playlist := [''a.mp3'', ''b.mp3'', ''c.mp3''], idx := Some 2 \<rparr>"

text \<open>The playing track sought to its very end, and the state after that seek.\<close>

definition demo_sought :: player where
  "demo_sought = (case on_seek demo_env 100 demo_playing of Inr s \<Rightarrow> s | Inl _ \<Rightarrow> init)"

text \<open>The playing track with repeat mode \<open>one\<close>.\<close>

definition demo_repeat_one :: player where
  "demo_repeat_one = cycle_repeat (cycle_repeat demo_playing)"

section \<open>Properties\<close>

subsection \<open>Auxiliary facts\<close>

lemmas fmt_defs = format_time_def py_int_def fmt02d_def str_int_def digit_char_def

lemmas fl_eval = round_double_def round_half_even_def ulp_def pow2_def ilog2.simps

lemmas float_defs = fdiv_def fmul_def fsub_def

lemma pow2_pos: "0 < pow2 k"
  by (simp add: pow2_def)

lemma pow2_Suc: "pow2 (k + 1) = 2 * pow2 k"
proof (cases "0 \<le> k")
  case True
  then have "nat (k + 1) = Suc (nat k)" by simp
  with True show ?thesis by (simp add: pow2_def)
next
  case False
  then have "nat (- k) = Suc (nat (- (k + 1)))" by simp
  with False show ?thesis by (simp add: pow2_def)
qed

lemma pow2_pred: "pow2 (k - 1) = pow2 k / 2"
  using pow2_Suc [of "k - 1"] by simp

lemma pow2_add_nat: "pow2 (k + int n) = 2 ^ n * pow2 k"
proof (induction n)
  case 0
  show ?case by simp
next
  case (Suc n)
  have "k + int (Suc n) = (k + int n) + 1" by simp
  then have "pow2 (k + int (Suc n)) = pow2 ((k + int n) + 1)" by (simp only:)
  also have "\<dots> = 2 * pow2 (k + int n)" by (rule pow2_Suc)
  finally show ?case using Suc by simp
qed

lemma pow2_mono: "j \<le> k \<Longrightarrow> pow2 j \<le> pow2 k"
proof -
  assume "j \<le> k"
  then obtain n where "k = j + int n" by (metis zle_iff_zadd)
  then have "pow2 k = 2 ^ n * pow2 j" by (simp add: pow2_add_nat)
  moreover have "(1::real) \<le> 2 ^ n" by simp
  ultimately show ?thesis using pow2_pos [of j] by (simp add: mult_le_cancel_right1)
qed

lemma ilog2_bounds:
  "0 < a \<Longrightarrow> pow2 (ilog2 a) \<le> a \<and> a < pow2 (ilog2 a + 1)"
proof (induction a rule: ilog2.induct)
  case (1 a)
  show ?case
  proof (cases "2 \<le> a")
    case True
    with "1.prems" have eq: "ilog2 a = ilog2 (a / 2) + 1" by (subst ilog2.simps) simp
    from "1.IH"(1) True "1.prems"
    have ih: "pow2 (ilog2 (a / 2)) \<le> a / 2 \<and> a / 2 < pow2 (ilog2 (a / 2) + 1)" by simp
    have p: "pow2 (ilog2 a) = 2 * pow2 (ilog2 (a / 2))" by (simp only: eq pow2_Suc)
    have q: "pow2 (ilog2 a + 1) = 2 * pow2 (ilog2 a)" by (rule pow2_Suc)
    have r: "pow2 (ilog2 (a / 2) + 1) = 2 * pow2 (ilog2 (a / 2))" by (rule pow2_Suc)
    from ih show ?thesis unfolding q p r by simp
  next
    case False
    show ?thesis
    proof (cases "a < 1")
      case True
      with False "1.prems" have eq: "ilog2 a = ilog2 (a * 2) - 1" by (subst ilog2.simps) simp
      from "1.IH"(2) True False "1.prems"
      have ih: "pow2 (ilog2 (a * 2)) \<le> a * 2 \<and> a * 2 < pow2 (ilog2 (a * 2) + 1)" by simp
      have p: "pow2 (ilog2 a) = pow2 (ilog2 (a * 2)) / 2" by (simp only: eq pow2_pred)
      have q: "pow2 (ilog2 a + 1) = 2 * pow2 (ilog2 a)" by (rule pow2_Suc)
      have r: "pow2 (ilog2 (a * 2) + 1) = 2 * pow2 (ilog2 (a * 2))" by (rule pow2_Suc)
      from ih show ?thesis unfolding q p r by simp
    next
      case ge: False
      with False "1.prems" have "ilog2 a = 0" by (subst ilog2.simps) simp
      with ge False show ?thesis by (simp add: pow2_def)
    qed
  qed
qed

lemma ilog2_mono:
  assumes "0 < a" "a \<le> b"
  shows "ilog2 a \<le> ilog2 b"
proof (rule ccontr)
  assume "\<not> ilog2 a \<le> ilog2 b"
  then have "ilog2 b + 1 \<le> ilog2 a" by simp
  then have "pow2 (ilog2 b + 1) \<le> pow2 (ilog2 a)" by (rule pow2_mono)
  also have "\<dots> \<le> a" using ilog2_bounds [OF assms(1)] by simp
  also have "\<dots> \<le> b" by (rule assms(2))
  also have "\<dots> < pow2 (ilog2 b + 1)" using ilog2_bounds [of b] assms by simp
  finally show False by simp
qed

lemma ulp_pos: "0 < ulp a"
  by (simp add: ulp_def pow2_pos)

lemma ulp_mono:
  assumes "0 < a" "a \<le> b"
  shows "\<exists>n. ulp b = 2 ^ n * ulp a"
proof -
  let ?j = "max (ilog2 a) (- 1022) - 52" and ?k = "max (ilog2 b) (- 1022) - 52"
  have "?j \<le> ?k" using ilog2_mono [OF assms] by simp
  then obtain n where "?k = ?j + int n" by (metis zle_iff_zadd)
  then have "pow2 ?k = 2 ^ n * pow2 ?j" by (simp only: pow2_add_nat)
  then show ?thesis by (auto simp: ulp_def)
qed

lemma round_half_even_nonneg: "0 \<le> m \<Longrightarrow> 0 \<le> round_half_even m"
  by (simp add: round_half_even_def)

lemma round_half_even_le:
  assumes "m \<le> of_int K"
  shows "round_half_even m \<le> K"
proof (cases "\<lfloor>m\<rfloor> = K")
  case True
  then have "of_int K \<le> m" by (metis of_int_floor_le)
  with assms have "m = of_int K" by simp
  then show ?thesis by (simp add: round_half_even_def)
next
  case False
  moreover have "\<lfloor>m\<rfloor> \<le> K" using assms by (simp add: floor_le_iff)
  ultimately have "\<lfloor>m\<rfloor> + 1 \<le> K" by simp
  then show ?thesis by (simp add: round_half_even_def)
qed

lemma round_double_nonneg: "0 \<le> x \<Longrightarrow> 0 \<le> round_double x"
proof -
  assume x: "0 \<le> x"
  have "0 \<le> \<bar>x\<bar> / ulp \<bar>x\<bar>" using ulp_pos [of "\<bar>x\<bar>"] by simp
  then have "0 \<le> round_half_even (\<bar>x\<bar> / ulp \<bar>x\<bar>)" by (rule round_half_even_nonneg)
  then have "0 \<le> real_of_int (round_half_even (\<bar>x\<bar> / ulp \<bar>x\<bar>)) * ulp \<bar>x\<bar>"
    using ulp_pos [of "\<bar>x\<bar>"] by simp
  with x show ?thesis by (simp add: round_double_def sgn_real_def)
qed

lemma round_double_pos_eq:
  "0 < x \<Longrightarrow> round_double x = of_int (round_half_even (x / ulp x)) * ulp x"
  by (simp add: round_double_def)

lemma round_double_nonpos: "x \<le> 0 \<Longrightarrow> round_double x \<le> 0"
proof -
  assume x: "x \<le> 0"
  have "0 \<le> \<bar>x\<bar> / ulp \<bar>x\<bar>" using ulp_pos [of "\<bar>x\<bar>"] by simp
  then have "0 \<le> round_half_even (\<bar>x\<bar> / ulp \<bar>x\<bar>)" by (rule round_half_even_nonneg)
  then have "0 \<le> real_of_int (round_half_even (\<bar>x\<bar> / ulp \<bar>x\<bar>)) * ulp \<bar>x\<bar>"
    using ulp_pos [of "\<bar>x\<bar>"] by simp
  with x show ?thesis by (simp add: round_double_def sgn_real_def)
qed

lemma round_double_below_double:
  assumes "0 \<le> d" "round_double d = d" "z \<le> d"
  shows "round_double z \<le> d"
proof (cases "0 < z")
  case False
  then have "round_double z \<le> 0" by (simp add: round_double_nonpos)
  with assms(1) show ?thesis by simp
next
  case True
  then have d: "0 < d" using assms(3) by simp
  from ulp_mono [OF True assms(3)] obtain n where n: "ulp d = 2 ^ n * ulp z" by blast
  let ?N = "round_half_even (d / ulp d)"
  have dN: "d = of_int ?N * ulp d"
    using assms(2) d by (simp add: round_double_pos_eq)
  then have "d = of_int (?N * 2 ^ n) * ulp z" by (simp add: n)
  then have "d / ulp z = of_int (?N * 2 ^ n)"
    using ulp_pos [of z] by (simp add: field_simps)
  moreover have "z / ulp z \<le> d / ulp z"
    using assms(3) ulp_pos [of z] by (simp add: divide_right_mono)
  ultimately have "round_half_even (z / ulp z) \<le> ?N * 2 ^ n"
    using round_half_even_le [of "z / ulp z" "?N * 2 ^ n"] by simp
  then have "real_of_int (round_half_even (z / ulp z)) \<le> real_of_int (?N * 2 ^ n)"
    by (simp only: of_int_le_iff)
  then have "real_of_int (round_half_even (z / ulp z)) * ulp z \<le> real_of_int (?N * 2 ^ n) * ulp z"
    using ulp_pos [of z] by (simp add: mult_right_mono)
  also have "\<dots> = d" using \<open>d = of_int (?N * 2 ^ n) * ulp z\<close> by simp
  finally show ?thesis using True by (simp add: round_double_pos_eq)
qed

lemma remdups_snoc: "remdups (ys @ [x]) = remdups (filter (\<lambda>y. y \<noteq> x) ys) @ [x]"
  by (induction ys) auto

lemma new_paths_Cons_new:
  assumes "p \<noteq> []" "p \<notin> set pl"
  shows "new_paths pl (p # ps) = p # new_paths (pl @ [p]) ps"
proof -
  have "filter (\<lambda>y. y \<noteq> p) (rev (filter (\<lambda>q. q \<noteq> [] \<and> q \<notin> set pl) ps))
        = rev (filter (\<lambda>q. q \<noteq> [] \<and> q \<notin> set (pl @ [p])) ps)"
    by (simp add: rev_filter [symmetric] conj_commute conj_left_commute cong: filter_cong)
  with assms show ?thesis
    by (simp add: new_paths_def remdups_snoc)
qed

lemma new_paths_Cons_old:
  assumes "p = [] \<or> p \<in> set pl"
  shows "new_paths pl (p # ps) = new_paths pl ps"
  using assms by (auto simp: new_paths_def)

lemma add_loop_new_paths:
  "add_loop paths pl a = (pl @ new_paths pl paths, a \<or> new_paths pl paths \<noteq> [])"
proof (induction paths arbitrary: pl a)
  case Nil
  show ?case by (simp add: new_paths_def)
next
  case (Cons p ps)
  show ?case
  proof (cases "p \<noteq> [] \<and> p \<notin> set pl")
    case True
    then show ?thesis using Cons.IH [of "pl @ [p]" True]
      by (simp add: new_paths_Cons_new)
  next
    case False
    then have old: "p = [] \<or> p \<in> set pl" by blast
    then have "add_loop (p # ps) pl a = add_loop ps pl a" by auto
    with old show ?thesis using Cons.IH [of pl a]
      by (simp add: new_paths_Cons_old)
  qed
qed

lemma new_paths_distinct_id:
  assumes "distinct P" "[] \<notin> set P"
  shows "new_paths [] P = P"
proof -
  have f: "filter (\<lambda>p. p \<noteq> [] \<and> p \<notin> set []) P = P"
    using assms(2) by (induction P) auto
  have r: "remdups (rev P) = rev P"
    using assms(1) by (simp add: distinct_remdups_id)
  show ?thesis unfolding new_paths_def f r by simp
qed

lemma add_paths_eq:
  "add_paths paths s =
     (PyNone, s\<lparr> playlist := playlist s @ new_paths (playlist s) paths,
                 idx := (if new_paths (playlist s) paths \<noteq> [] \<and> idx s = None
                         then Some 0 else idx s) \<rparr>)"
  by (simp add: add_paths_def add_loop_new_paths)

lemma add_paths_idx_valid:
  assumes "idx_valid s"
  shows "idx_valid (snd (add_paths paths s))"
proof (cases "idx s")
  case None
  have "new_paths (playlist s) paths \<noteq> [] \<Longrightarrow> 0 < length (new_paths (playlist s) paths)"
    by simp
  then have "new_paths (playlist s) paths \<noteq> [] \<Longrightarrow>
             0 < int (length (playlist s)) + int (length (new_paths (playlist s) paths))"
    by linarith
  with None show ?thesis
    by (simp add: add_paths_eq idx_valid_def)
next
  case (Some c)
  with assms show ?thesis
    by (simp add: add_paths_eq idx_valid_def)
qed

lemma remove_selected_idx_valid:
  assumes "idx_valid s" "remove_selected sel s = Inr s'"
  shows "idx_valid s'"
  using assms
  by (auto simp: remove_selected_def idx_valid_def stop_song_def Let_def
           split: list.splits option.splits if_splits)

lemma apply_op_idx_valid:
  assumes "idx_valid s" "apply_op x s = Inr s'"
  shows "idx_valid s'"
proof (cases x)
  case (Add paths)
  with assms show ?thesis using add_paths_idx_valid [of s paths] by auto
next
  case (Remove i)
  with assms show ?thesis using remove_selected_idx_valid [of s "[i]" s'] by simp
qed

lemma exec_ops_idx_valid:
  "idx_valid s \<Longrightarrow> exec_ops xs s = Inr s' \<Longrightarrow> idx_valid s'"
proof (induction xs arbitrary: s)
  case Nil
  then show ?case by simp
next
  case (Cons x xs)
  from Cons.prems(2) obtain s1 where s1: "apply_op x s = Inr s1" and rest: "exec_ops xs s1 = Inr s'"
    by (auto split: sum.splits)
  from Cons.prems(1) s1 have "idx_valid s1" by (rule apply_op_idx_valid)
  then show ?case using rest by (rule Cons.IH)
qed

lemma init_idx_valid: "idx_valid init"
  by (simp add: idx_valid_def init_def)

lemma load_track_frame:
  assumes "load_track e io s = (ok, s1)"
  shows "idx s1 = idx s" "playlist s1 = playlist s" "playing s1 = playing s"
    "paused s1 = paused s" "manual_seek_pos s1 = manual_seek_pos s"
    "repeat s1 = repeat s" "shuffle s1 = shuffle s" "curr_lbl s1 = curr_lbl s"
    "\<exists>cs. calls s1 = calls s @ cs \<and> Stop \<notin> set cs"
  using assms
  by (auto simp: load_track_def Let_def split: option.splits if_splits)

lemma load_track_ok:
  assumes "0 \<le> i" "i < int (length (playlist s))" "loadable e (playlist s ! nat i)"
  shows "fst (load_track e (Some i) s)"
  using assms by (simp add: load_track_def Let_def)

lemma start_playback_idx: "idx (start_playback e s) = idx s"
  by (cases "load_track e (idx s) s") (auto simp: start_playback_def dest: load_track_frame(1))

lemma start_playback_manual: "manual_seek_pos (start_playback e s) = manual_seek_pos s"
  by (cases "load_track e (idx s) s") (auto simp: start_playback_def dest: load_track_frame(5))

lemma start_playback_playing: "playing s \<Longrightarrow> playing (start_playback e s)"
  by (cases "load_track e (idx s) s") (auto simp: start_playback_def dest: load_track_frame(3))

lemma start_playback_paused: "\<not> paused s \<Longrightarrow> \<not> paused (start_playback e s)"
  by (cases "load_track e (idx s) s") (auto simp: start_playback_def dest: load_track_frame(4))

lemma start_playback_calls:
  "\<exists>cs. calls (start_playback e s) = calls s @ cs \<and> Stop \<notin> set cs"
proof (cases "load_track e (idx s) s")
  case (Pair ok s1)
  from load_track_frame(9) [OF Pair] obtain cs where cs: "calls s1 = calls s @ cs" "Stop \<notin> set cs"
    by blast
  show ?thesis
  proof (cases "idx s = None \<or> \<not> ok")
    case True
    with Pair cs show ?thesis by (auto simp: start_playback_def)
  next
    case False
    with Pair cs have "calls (start_playback e s) = calls s @ (cs @ [Play None, SetVolume (vol_var s1)])"
      by (simp add: start_playback_def)
    moreover have "Stop \<notin> set (cs @ [Play None, SetVolume (vol_var s1)])"
      using cs(2) by simp
    ultimately show ?thesis by blast
  qed
qed

lemma start_playback_starts:
  assumes "idx s = Some i" "0 \<le> i" "i < int (length (playlist s))"
    "loadable e (playlist s ! nat i)"
  shows "playing (start_playback e s) \<and> \<not> paused (start_playback e s)"
proof (cases "load_track e (idx s) s")
  case (Pair ok s1)
  with assms load_track_ok [of i s e] have "ok" by simp
  with Pair assms(1) show ?thesis by (simp add: start_playback_def)
qed

lemma next_song_manual: "manual_seek_pos (next_song e r s) = manual_seek_pos s"
  by (auto simp: next_song_def start_playback_manual stop_song_def split: option.splits)

subsection \<open>Playlist store\<close>

text \<open>
  C1. Run any sequence of add and remove operations from the initial state (empty
  playlist, no current index). After each operation, that is after every prefix of the
  sequence that ran without an out-of-range removal, the current index is absent or a
  valid index into the playlist. An operation fails only when it removes at an index
  outside the playlist. Removing below the current index decrements the current index by
  one, and removing at the current index makes it absent.
\<close>

theorem C1_index_never_dangles:
  "(exec_ops (take n xs) init = Inr s \<longrightarrow> idx_valid s)
   \<and> ((\<exists>err. apply_op x t = Inl err) \<longleftrightarrow> (\<exists>i. x = Remove i \<and> length (playlist t) \<le> i))
   \<and> (i < length (playlist t) \<and> idx t = Some c \<and> int i < c \<longrightarrow>
        (\<exists>t'. remove_selected [i] t = Inr t' \<and> idx t' = Some (c - 1)))
   \<and> (i < length (playlist t) \<and> idx t = Some (int i) \<longrightarrow>
        (\<exists>t'. remove_selected [i] t = Inr t' \<and> idx t' = None))"
proof -
  have a: "exec_ops (take n xs) init = Inr s \<longrightarrow> idx_valid s"
    using exec_ops_idx_valid [OF init_idx_valid] by blast
  have b: "(\<exists>err. apply_op x t = Inl err) \<longleftrightarrow> (\<exists>i. x = Remove i \<and> length (playlist t) \<le> i)"
    by (cases x) (auto simp: remove_selected_def Let_def split: option.splits)
  have c: "i < length (playlist t) \<and> idx t = Some c \<and> int i < c \<longrightarrow>
        (\<exists>t'. remove_selected [i] t = Inr t' \<and> idx t' = Some (c - 1))"
    by (auto simp: remove_selected_def Let_def)
  have d: "i < length (playlist t) \<and> idx t = Some (int i) \<longrightarrow>
        (\<exists>t'. remove_selected [i] t = Inr t' \<and> idx t' = None)"
    by (auto simp: remove_selected_def Let_def)
  from a b c d show ?thesis by blast
qed

theorem C1_index_never_dangles_witness:
  "exec_ops (take 2 [Add [''a.mp3'', ''b.mp3''], Remove 1, Remove 0]) init
     = Inr (init\<lparr> playlist := [''a.mp3''], idx := Some 0 \<rparr>)
   \<and> idx_valid (init\<lparr> playlist := [''a.mp3''], idx := Some 0 \<rparr>)
   \<and> (\<exists>err. apply_op (Remove 3) demo_three = Inl err)
   \<and> (\<exists>t'. remove_selected [1] demo_three = Inr t' \<and> idx t' = Some 1)
   \<and> (\<exists>t'. remove_selected [2] demo_three = Inr t' \<and> idx t' = None)"
proof -
  let ?s = "init\<lparr> playlist := [''a.mp3''], idx := Some 0 \<rparr>"
  have run: "exec_ops (take 2 [Add [''a.mp3'', ''b.mp3''], Remove 1, Remove 0]) init = Inr ?s"
    by (simp add: add_paths_def remove_selected_def init_def)
  have pre: "(1::nat) < length (playlist demo_three) \<and> idx demo_three = Some 2 \<and> int 1 < 2"
    by (simp add: demo_three_def init_def)
  have pre2: "(2::nat) < length (playlist demo_three) \<and> idx demo_three = Some (int 2)"
    by (simp add: demo_three_def init_def)
  have pre3: "\<exists>i. Remove 3 = Remove i \<and> length (playlist demo_three) \<le> i"
    by (simp add: demo_three_def init_def)
  from run pre pre3
    C1_index_never_dangles [of 2 "[Add [''a.mp3'', ''b.mp3''], Remove 1, Remove 0]" ?s
      "Remove 3" demo_three 1 2]
  have "idx_valid ?s" and "\<exists>err. apply_op (Remove 3) demo_three = Inl err"
    and "\<exists>t'. remove_selected [1] demo_three = Inr t' \<and> idx t' = Some 1"
    by simp_all
  moreover from pre2 C1_index_never_dangles [of 0 "[]" init "Remove 3" demo_three 2 2]
  have "\<exists>t'. remove_selected [2] demo_three = Inr t' \<and> idx t' = None"
    by simp
  ultimately show ?thesis using run by blast
qed

text \<open>
  C6. In every state, removing the entry at the current index stops playback (the
  transport is told to stop, and both flags are false afterwards) and leaves no current
  index.
\<close>

theorem C6_remove_current_stops:
  assumes "idx s = Some (int i)" and "i < length (playlist s)"
  shows "\<exists>s'. remove_selected (i # rest) s = Inr s'
           \<and> \<not> playing s' \<and> \<not> paused s' \<and> idx s' = None
           \<and> calls s' = calls s @ [Stop]
           \<and> playlist s' = take i (playlist s) @ drop (Suc i) (playlist s)"
  using assms by (simp add: remove_selected_def stop_song_def Let_def)

theorem C6_remove_current_stops_witness:
  "idx demo_playing = Some (int 0) \<and> 0 < length (playlist demo_playing) \<and> playing demo_playing
   \<and> (\<exists>s'. remove_selected [0] demo_playing = Inr s'
           \<and> \<not> playing s' \<and> \<not> paused s' \<and> idx s' = None
           \<and> calls s' = calls demo_playing @ [Stop]
           \<and> playlist s' = take 0 (playlist demo_playing) @ drop (Suc 0) (playlist demo_playing))"
proof -
  have h: "idx demo_playing = Some (int 0)" "0 < length (playlist demo_playing)" "playing demo_playing"
    by (simp_all add: demo_playing_def demo_env_def play_pause_def add_paths_def init_def
          start_playback_def load_track_def known_def)
  from C6_remove_current_stops [OF h(1) h(2), of "[]"] h show ?thesis by blast
qed

subsection \<open>Next and previous\<close>

text \<open>
  C2. Take a non-empty playlist, shuffle off, and the current index on the last entry.
  Under repeat mode \<open>all\<close>, \<open>next_song\<close> sets the current index to 0 and goes on to
  \<open>start_playback\<close>: nothing tells the transport to stop, a player that was playing is
  still playing, and when the first track loads the player is playing and not paused.
  Under any other repeat mode, \<open>next_song\<close> stops: the transport is told to stop and both
  flags are false.
\<close>

theorem C2_next_on_last_index:
  assumes "playlist s \<noteq> []" and "\<not> shuffle s"
    and "idx s = Some (int (length (playlist s)) - 1)"
  shows "(repeat s = All \<longrightarrow>
            next_song e r s = start_playback e (s\<lparr> idx := Some 0 \<rparr>)
          \<and> idx (next_song e r s) = Some 0
          \<and> (\<exists>cs. calls (next_song e r s) = calls s @ cs \<and> Stop \<notin> set cs)
          \<and> (playing s \<longrightarrow> playing (next_song e r s))
          \<and> (\<not> paused s \<longrightarrow> \<not> paused (next_song e r s))
          \<and> (loadable e (playlist s ! 0) \<longrightarrow>
                playing (next_song e r s) \<and> \<not> paused (next_song e r s)))
       \<and> (repeat s \<noteq> All \<longrightarrow>
            \<not> playing (next_song e r s) \<and> \<not> paused (next_song e r s)
          \<and> calls (next_song e r s) = calls s @ [Stop])"
proof (intro conjI impI)
  assume all: "repeat s = All"
  let ?t = "s\<lparr> idx := Some 0 \<rparr>"
  show eq: "next_song e r s = start_playback e ?t"
    using assms all by (simp add: next_song_def)
  show "idx (next_song e r s) = Some 0"
    by (simp add: eq start_playback_idx)
  show "\<exists>cs. calls (next_song e r s) = calls s @ cs \<and> Stop \<notin> set cs"
    using start_playback_calls [of e ?t] by (simp add: eq)
  show "playing (next_song e r s)" if "playing s"
    using that start_playback_playing [of ?t e] by (simp add: eq)
  show "\<not> paused (next_song e r s)" if "\<not> paused s"
    using that start_playback_paused [of ?t e] by (simp add: eq)
  have st: "playing (start_playback e ?t) \<and> \<not> paused (start_playback e ?t)"
    if "loadable e (playlist s ! 0)"
    using that assms(1) start_playback_starts [of ?t 0 e] by simp
  show "playing (next_song e r s)" if "loadable e (playlist s ! 0)"
    using st [OF that] by (simp add: eq)
  show "\<not> paused (next_song e r s)" if "loadable e (playlist s ! 0)"
    using st [OF that] by (simp add: eq)
next
  assume other: "repeat s \<noteq> All"
  have eq: "next_song e r s = stop_song (s\<lparr> idx := Some (int (length (playlist s))) \<rparr>)"
    using assms other by (simp add: next_song_def)
  show "\<not> playing (next_song e r s)" by (simp add: eq stop_song_def)
  show "\<not> paused (next_song e r s)" by (simp add: eq stop_song_def)
  show "calls (next_song e r s) = calls s @ [Stop]" by (simp add: eq stop_song_def)
qed

theorem C2_next_on_last_index_witness:
  "playlist demo_three \<noteq> [] \<and> \<not> shuffle demo_three
   \<and> idx demo_three = Some (int (length (playlist demo_three)) - 1)
   \<and> repeat demo_three \<noteq> All
   \<and> \<not> playing (next_song demo_env 0 demo_three)
   \<and> calls (next_song demo_env 0 demo_three) = calls demo_three @ [Stop]
   \<and> repeat (cycle_repeat demo_three) = All
   \<and> loadable demo_env (playlist (cycle_repeat demo_three) ! 0)
   \<and> idx (next_song demo_env 0 (cycle_repeat demo_three)) = Some 0
   \<and> playing (next_song demo_env 0 (cycle_repeat demo_three))"
proof -
  have h: "playlist demo_three \<noteq> []" "\<not> shuffle demo_three"
    "idx demo_three = Some (int (length (playlist demo_three)) - 1)"
    "repeat demo_three \<noteq> All"
    by (simp_all add: demo_three_def init_def)
  have k: "playlist (cycle_repeat demo_three) \<noteq> []" "\<not> shuffle (cycle_repeat demo_three)"
    "idx (cycle_repeat demo_three) = Some (int (length (playlist (cycle_repeat demo_three))) - 1)"
    "repeat (cycle_repeat demo_three) = All"
    "loadable demo_env (playlist (cycle_repeat demo_three) ! 0)"
    by (simp_all add: demo_three_def init_def cycle_repeat_def demo_env_def)
  from C2_next_on_last_index [OF h(1-3), of demo_env 0] h(4)
  have off: "\<not> playing (next_song demo_env 0 demo_three)"
    "calls (next_song demo_env 0 demo_three) = calls demo_three @ [Stop]"
    by blast+
  from C2_next_on_last_index [OF k(1-3), of demo_env 0] k(4,5)
  have all: "idx (next_song demo_env 0 (cycle_repeat demo_three)) = Some 0"
    "playing (next_song demo_env 0 (cycle_repeat demo_three))"
    by blast+
  from h k off all show ?thesis by blast
qed

text \<open>
  C3. Take a non-empty playlist with the current index 0 (\<open>prev_song\<close> does not consult
  the shuffle flag, so the statement holds with shuffle on or off). Under a repeat mode
  other than \<open>all\<close>, \<open>prev_song\<close> leaves the index at 0 and goes on to \<open>start_playback\<close>
  without telling the transport to stop: a player that was playing is still playing,
  and when the track loads the player is playing and not paused. Under repeat mode
  \<open>all\<close> the index becomes the last one, the length minus one.
\<close>

theorem C3_prev_on_first_index:
  assumes "playlist s \<noteq> []" and "idx s = Some 0"
  shows "(repeat s \<noteq> All \<longrightarrow>
            (\<exists>s'. prev_song e s = Inr s' \<and> idx s' = Some 0
                 \<and> (\<exists>cs. calls s' = calls s @ cs \<and> Stop \<notin> set cs)
                 \<and> (playing s \<longrightarrow> playing s')
                 \<and> (\<not> paused s \<longrightarrow> \<not> paused s')
                 \<and> (loadable e (playlist s ! 0) \<longrightarrow> playing s' \<and> \<not> paused s')))
       \<and> (repeat s = All \<longrightarrow>
            (\<exists>s'. prev_song e s = Inr s' \<and> idx s' = Some (int (length (playlist s)) - 1)))"
proof (intro conjI impI)
  assume other: "repeat s \<noteq> All"
  let ?t = "s\<lparr> idx := Some 0 \<rparr>"
  have eq: "prev_song e s = Inr (start_playback e ?t)"
    using assms other by (simp add: prev_song_def)
  have 1: "idx (start_playback e ?t) = Some 0"
    by (simp add: start_playback_idx)
  have 2: "\<exists>cs. calls (start_playback e ?t) = calls s @ cs \<and> Stop \<notin> set cs"
    using start_playback_calls [of e ?t] by simp
  have 3: "playing s \<longrightarrow> playing (start_playback e ?t)"
    using start_playback_playing [of ?t e] by simp
  have 4: "\<not> paused s \<longrightarrow> \<not> paused (start_playback e ?t)"
    using start_playback_paused [of ?t e] by simp
  have 5: "loadable e (playlist s ! 0) \<longrightarrow>
           playing (start_playback e ?t) \<and> \<not> paused (start_playback e ?t)"
    using assms(1) start_playback_starts [of ?t 0 e] by simp
  from eq 1 2 3 4 5
  show "\<exists>s'. prev_song e s = Inr s' \<and> idx s' = Some 0
                 \<and> (\<exists>cs. calls s' = calls s @ cs \<and> Stop \<notin> set cs)
                 \<and> (playing s \<longrightarrow> playing s')
                 \<and> (\<not> paused s \<longrightarrow> \<not> paused s')
                 \<and> (loadable e (playlist s ! 0) \<longrightarrow> playing s' \<and> \<not> paused s')"
    by blast
next
  assume all: "repeat s = All"
  let ?n = "int (length (playlist s))"
  have pos: "0 < ?n" using assms(1) by simp
  have m: "(0 - 1) mod ?n = ?n - 1"
    using pos by (simp add: zmod_minus1)
  have "prev_song e s = Inr (start_playback e (s\<lparr> idx := Some (?n - 1) \<rparr>))"
    using assms all m by (simp add: prev_song_def)
  then show "\<exists>s'. prev_song e s = Inr s' \<and> idx s' = Some (?n - 1)"
    by (simp add: start_playback_idx)
qed

theorem C3_prev_on_first_index_witness:
  "playlist demo_two = [''a.mp3'', ''b.mp3''] \<and> idx demo_two = Some 0
   \<and> repeat demo_two \<noteq> All \<and> \<not> playing demo_two
   \<and> loadable demo_env (playlist demo_two ! 0)
   \<and> (\<exists>s'. prev_song demo_env demo_two = Inr s' \<and> idx s' = Some 0
          \<and> playing s' \<and> \<not> paused s')
   \<and> repeat (cycle_repeat demo_two) = All
   \<and> (\<exists>s'. prev_song demo_env (cycle_repeat demo_two) = Inr s' \<and> idx s' = Some 1)"
proof -
  have h: "playlist demo_two = [''a.mp3'', ''b.mp3'']" "idx demo_two = Some 0"
    "repeat demo_two \<noteq> All" "\<not> playing demo_two"
    "loadable demo_env (playlist demo_two ! 0)"
    by (simp_all add: demo_two_def demo_env_def add_paths_def init_def)
  have k: "playlist (cycle_repeat demo_two) = [''a.mp3'', ''b.mp3'']"
    "idx (cycle_repeat demo_two) = Some 0" "repeat (cycle_repeat demo_two) = All"
    by (simp_all add: cycle_repeat_def demo_two_def add_paths_def init_def)
  have ne: "playlist demo_two \<noteq> []" "playlist (cycle_repeat demo_two) \<noteq> []"
    by (simp_all add: h(1) k(1))
  from C3_prev_on_first_index [OF ne(1) h(2), of demo_env] h(3,5)
  have off: "\<exists>s'. prev_song demo_env demo_two = Inr s' \<and> idx s' = Some 0
          \<and> playing s' \<and> \<not> paused s'"
    by blast
  from C3_prev_on_first_index [OF ne(2) k(2), of demo_env] k(3)
  have "\<exists>s'. prev_song demo_env (cycle_repeat demo_two) = Inr s'
          \<and> idx s' = Some (int (length (playlist (cycle_repeat demo_two))) - 1)"
    by blast
  then have all: "\<exists>s'. prev_song demo_env (cycle_repeat demo_two) = Inr s' \<and> idx s' = Some 1"
    by (simp add: k(1))
  from h k off all show ?thesis by blast
qed

text \<open>
  C10. \<open>prev_song\<close> is not total on the states the player can reach. With a non-empty
  playlist, no current index and repeat mode \<open>all\<close> it raises \<open>TypeError\<close>, because it
  subtracts one from the absent index; under the other repeat modes the absent index is
  read as 0 and playback starts at index 0. Such a state is reached by adding two
  tracks, removing the current one and cycling the repeat mode once.
\<close>

theorem C10_prev_raises_without_index:
  "(playlist s \<noteq> [] \<and> idx s = None \<and> repeat s = All \<longrightarrow> prev_song e s = Inl TypeError)
   \<and> (playlist s \<noteq> [] \<and> idx s = None \<and> repeat s \<noteq> All \<longrightarrow>
        prev_song e s = Inr (start_playback e (s\<lparr> idx := Some 0 \<rparr>)))
   \<and> (\<exists>s1 s2. s1 = snd (add_paths [''a.mp3'', ''b.mp3''] init)
        \<and> idx s1 = Some 0
        \<and> remove_selected [0] s1 = Inr s2
        \<and> playlist (cycle_repeat s2) \<noteq> [] \<and> idx (cycle_repeat s2) = None
        \<and> repeat (cycle_repeat s2) = All
        \<and> prev_song e (cycle_repeat s2) = Inl TypeError)"
proof (intro conjI)
  show "playlist s \<noteq> [] \<and> idx s = None \<and> repeat s = All \<longrightarrow> prev_song e s = Inl TypeError"
    by (simp add: prev_song_def)
  show "playlist s \<noteq> [] \<and> idx s = None \<and> repeat s \<noteq> All \<longrightarrow>
        prev_song e s = Inr (start_playback e (s\<lparr> idx := Some 0 \<rparr>))"
    by (simp add: prev_song_def)
  show "\<exists>s1 s2. s1 = snd (add_paths [''a.mp3'', ''b.mp3''] init)
        \<and> idx s1 = Some 0
        \<and> remove_selected [0] s1 = Inr s2
        \<and> playlist (cycle_repeat s2) \<noteq> [] \<and> idx (cycle_repeat s2) = None
        \<and> repeat (cycle_repeat s2) = All
        \<and> prev_song e (cycle_repeat s2) = Inl TypeError"
    by (simp add: add_paths_def init_def remove_selected_def stop_song_def cycle_repeat_def
          prev_song_def)
qed

theorem C10_prev_raises_without_index_witness:
  "playlist demo_removed \<noteq> [] \<and> idx demo_removed = None \<and> repeat demo_removed = All
   \<and> prev_song demo_env demo_removed = Inl TypeError"
proof -
  have h: "playlist demo_removed \<noteq> [] \<and> idx demo_removed = None \<and> repeat demo_removed = All"
    by (simp add: demo_removed_def add_paths_def init_def remove_selected_def stop_song_def
          cycle_repeat_def)
  with C10_prev_raises_without_index [of demo_removed demo_env] show ?thesis by blast
qed

subsection \<open>Seek and the refresh tick\<close>

lemma demo_playing_eq:
  "demo_playing =
     \<lparr> playlist = [''a.mp3''], idx = Some 0, playing = True, paused = False,
       length_sec = 180, shuffle = False, repeat = Off, manual_seek_pos = None,
       vol_var = round_double (85 / 100), curr_lbl = ''00:00'', total_lbl = ''/ 03:00'',
       slider = 0,
       calls = [Load ''a.mp3'', Play None, SetVolume (round_double (85 / 100))] \<rparr>"
  by (simp add: demo_playing_def demo_env_def play_pause_def add_paths_def init_def
        start_playback_def load_track_def known_def fmt_defs)

lemma guard_180: "fsub 180 (round_double (4 / 10)) = 6319113227154227 / 2 ^ 45"
  by (simp add: float_defs fl_eval)

lemma guard_180_normal: "fsub 180 (round_double (2 / 5)) = 6319113227154227 / 2 ^ 45"
  using guard_180 by simp

lemma slider_full: "fmul (fdiv 180 180) 100 = 100"
  by (simp add: float_defs fl_eval)

lemma slider_half: "fmul (fdiv 90 180) 100 = 50"
  by (simp add: float_defs fl_eval)

lemma four_tenths: "4 / 10 \<le> round_double (4 / 10)"
  by (simp add: fl_eval)

lemma seek_35: "fmul (fdiv 35 100) 180 = 8866461766385663 / 2 ^ 47"
  by (simp add: float_defs fl_eval)

lemma seek_50: "fmul (fdiv 50 100) 180 = 90"
  by (simp add: float_defs fl_eval)

lemma seek_100: "fmul (fdiv 100 100) 180 = 180"
  by (simp add: float_defs fl_eval)

lemma seek_boundary:
  "fmul (fdiv (1755309229765063 / 2 ^ 44) 100) 180 = 6319113227154227 / 2 ^ 45"
  by (simp add: float_defs fl_eval)

lemma on_seek_playing:
  assumes "playing s" "0 < length_sec s" "idx s = Some i" "0 \<le> i"
    "i < int (length (playlist s))"
  shows "\<exists>s1. on_seek e val s = Inr s1
           \<and> manual_seek_pos s1 = Some (fmul (fdiv val 100) (length_sec s))
           \<and> playing s1 \<and> paused s1 = paused s \<and> idx s1 = idx s
           \<and> playlist s1 = playlist s \<and> repeat s1 = repeat s \<and> shuffle s1 = shuffle s
           \<and> curr_lbl s1 = format_time (fmul (fdiv val 100) (length_sec s))
           \<and> length_sec s1 = (if known (probe e (playlist s ! nat i))
                               then probe e (playlist s ! nat i) else length_sec s)
           \<and> calls s1 = calls s @ [Play (Some (fmul (fdiv val 100) (length_sec s)))]"
  using assms by (simp add: on_seek_def py_index_def known_def Let_def)

lemma seek_target_nonneg:
  assumes "0 \<le> val" "0 < len"
  shows "0 \<le> fmul (fdiv val 100) len"
proof -
  have "0 \<le> fdiv val 100" using assms(1) by (simp add: fdiv_def round_double_nonneg)
  then have "0 \<le> fdiv val 100 * len" using assms(2) by simp
  then show ?thesis by (simp add: fmul_def round_double_nonneg)
qed

lemma tick_pos_manual:
  assumes "manual_seek_pos s = Some p" "0 \<le> p"
  shows "tick_pos ms s = p"
  using assms by (simp add: tick_pos_def)

lemma tick_pos_nonneg: "0 \<le> tick_pos ms s"
  by (simp add: tick_pos_def Let_def)

lemma start_playback_curr_lbl: "curr_lbl (start_playback e s) = curr_lbl s"
  by (cases "load_track e (idx s) s") (auto simp: start_playback_def dest: load_track_frame(8))

lemma next_song_continues:
  assumes "\<not> next_stops s"
  shows "curr_lbl (next_song e r s) = curr_lbl s"
  using assms
  by (auto simp: next_song_def next_stops_def start_playback_curr_lbl split: option.splits)

lemma next_song_stops:
  assumes "next_stops s"
  shows "curr_lbl (next_song e r s) = ''00:00''" "\<not> playing (next_song e r s)"
  using assms
  by (auto simp: next_song_def next_stops_def stop_song_def split: option.splits)

lemma update_loop_manual_cleared:
  assumes "playing s" "\<not> paused s"
  shows "manual_seek_pos (update_loop e r ms s) = None"
  using assms by (simp add: update_loop_def Let_def next_song_manual)

lemma update_loop_manual_pos:
  assumes "playing s" "\<not> paused s" "manual_seek_pos s = Some p" "0 \<le> p"
  shows "update_loop e r ms s = update_loop e r ms' s"
  using assms by (simp add: update_loop_def tick_pos_manual)

lemma update_loop_shows_manual:
  assumes "playing s" "\<not> paused s" "manual_seek_pos s = Some p" "0 \<le> p"
    "curr_lbl s = format_time p"
    "\<not> (track_ended s p \<and> repeat s = Off \<and> next_stops s)"
  shows "curr_lbl (update_loop e r ms s) = format_time p"
proof (cases "track_ended s p")
  case False
  with assms(1-4) show ?thesis
    by (auto simp: update_loop_def tick_pos_manual track_ended_def Let_def)
next
  case True
  let ?s1 = "s\<lparr> manual_seek_pos := None \<rparr>"
  have te: "track_ended ?s1 p" using True by (simp add: track_ended_def)
  show ?thesis
  proof (cases "repeat s = One")
    case True
    with te assms(1-5) show ?thesis
      by (simp add: update_loop_def tick_pos_manual Let_def)
  next
    case False
    have "\<not> next_stops s"
      using assms(6) \<open>track_ended s p\<close> False
      by (cases "repeat s") (auto simp: next_stops_def)
    then have "\<not> next_stops ?s1" by (simp add: next_stops_def cong: option.case_cong)
    then have "curr_lbl (next_song e r ?s1) = curr_lbl ?s1" by (rule next_song_continues)
    with False te assms(1-5) show ?thesis
      by (simp add: update_loop_def tick_pos_manual Let_def)
  qed
qed

lemma update_loop_stops_at_end:
  assumes "playing s" "\<not> paused s" "manual_seek_pos s = Some p" "0 \<le> p"
    "track_ended s p" "repeat s = Off" "next_stops s"
  shows "curr_lbl (update_loop e r ms s) = ''00:00''" "\<not> playing (update_loop e r ms s)"
proof -
  let ?s1 = "s\<lparr> manual_seek_pos := None \<rparr>"
  have te: "track_ended ?s1 p" using assms(5) by (simp add: track_ended_def)
  have ns: "next_stops ?s1" using assms(7) by (simp add: next_stops_def cong: option.case_cong)
  have eq: "update_loop e r ms s = next_song e r ?s1"
    using assms(1-4,6) te by (simp add: update_loop_def tick_pos_manual Let_def)
  show "curr_lbl (update_loop e r ms s) = ''00:00''"
    using next_song_stops(1) [OF ns] by (simp add: eq)
  show "\<not> playing (update_loop e r ms s)"
    using next_song_stops(2) [OF ns] by (simp add: eq)
qed

text \<open>
  C4, as amended. Take a Playing state (playing, not paused) with known positive
  duration \<open>D\<close> and a valid current index, and seek to the fraction \<open>f = val / 100\<close> with
  the slider's \<open>val\<close> between 0 and 100. The seek records as pending manual position
  the product \<open>f * D\<close> as the code computes it, in doubles: \<open>fmul (fdiv val 100) D\<close>.
  The next refresh tick works with that position whatever the transport reports, and
  clears the pending position in every case. After that tick the displayed elapsed
  time is the recorded position, with one exception: when the recorded position passes
  the end-of-track test for the duration known after the seek, repeat is off and
  \<open>next_song\<close> cannot advance (shuffle off, current index last), the tick stops playback
  and the display shows zero.
\<close>

theorem C4_seek_then_tick:
  assumes "playing s" and "\<not> paused s" and "0 < length_sec s"
    and "idx s = Some i" and "0 \<le> i" and "i < int (length (playlist s))"
    and "0 \<le> val" and "val \<le> 100"
  shows "\<exists>s1. on_seek e val s = Inr s1
           \<and> manual_seek_pos s1 = Some (fmul (fdiv val 100) (length_sec s))
           \<and> (\<forall>r ms ms'.
                 manual_seek_pos (update_loop e r ms s1) = None
               \<and> update_loop e r ms s1 = update_loop e r ms' s1
               \<and> (\<not> (track_ended s1 (fmul (fdiv val 100) (length_sec s)) \<and> repeat s = Off
                       \<and> next_stops s) \<longrightarrow>
                    curr_lbl (update_loop e r ms s1)
                      = format_time (fmul (fdiv val 100) (length_sec s)))
               \<and> (track_ended s1 (fmul (fdiv val 100) (length_sec s)) \<and> repeat s = Off
                       \<and> next_stops s \<longrightarrow>
                    curr_lbl (update_loop e r ms s1) = ''00:00''
                    \<and> \<not> playing (update_loop e r ms s1)))"
proof -
  let ?p = "fmul (fdiv val 100) (length_sec s)"
  from on_seek_playing [OF assms(1,3,4,5,6), of e val]
  obtain s1 where s1: "on_seek e val s = Inr s1" "manual_seek_pos s1 = Some ?p"
    "playing s1" "paused s1 = paused s" "idx s1 = idx s" "playlist s1 = playlist s"
    "repeat s1 = repeat s" "shuffle s1 = shuffle s" "curr_lbl s1 = format_time ?p"
    by blast
  have np: "\<not> paused s1" using s1(4) assms(2) by simp
  have p0: "0 \<le> ?p" using assms(7,3) by (rule seek_target_nonneg)
  have ns: "next_stops s1 = next_stops s"
    by (simp add: next_stops_def s1(5-8) cong: option.case_cong)
  have "manual_seek_pos (update_loop e r ms s1) = None
      \<and> update_loop e r ms s1 = update_loop e r ms' s1
      \<and> (\<not> (track_ended s1 ?p \<and> repeat s = Off \<and> next_stops s) \<longrightarrow>
            curr_lbl (update_loop e r ms s1) = format_time ?p)
      \<and> (track_ended s1 ?p \<and> repeat s = Off \<and> next_stops s \<longrightarrow>
            curr_lbl (update_loop e r ms s1) = ''00:00'' \<and> \<not> playing (update_loop e r ms s1))"
    for r ms ms'
    using update_loop_manual_cleared [OF s1(3) np, of e r ms]
      update_loop_manual_pos [OF s1(3) np s1(2) p0, of e r ms ms']
      update_loop_shows_manual [OF s1(3) np s1(2) p0 s1(9), of e r ms]
      update_loop_stops_at_end [OF s1(3) np s1(2) p0, of e r ms]
    by (simp add: ns s1(7))
  with s1(1,2) show ?thesis by blast
qed

text \<open>The witness seeks the playing three-minute track to 35 percent, where the double
  product is just below 63 and the display shows 01:02; to the double nearest to
  99.77777777777777 percent, where the product equals the rounded guard
  \<open>180.0 - 0.4\<close> and the tick stops; and to 100 percent.\<close>

theorem C4_seek_then_tick_witness:
  "playing demo_playing \<and> \<not> paused demo_playing \<and> length_sec demo_playing = 180
   \<and> idx demo_playing = Some 0 \<and> repeat demo_playing = Off \<and> next_stops demo_playing
   \<and> (\<exists>s1. on_seek demo_env 35 demo_playing = Inr s1
          \<and> manual_seek_pos s1 = Some (8866461766385663 / 2 ^ 47)
          \<and> \<not> track_ended s1 (8866461766385663 / 2 ^ 47)
          \<and> manual_seek_pos (update_loop demo_env 0 12345 s1) = None
          \<and> curr_lbl (update_loop demo_env 0 12345 s1) = ''01:02'')
   \<and> (\<exists>s1. on_seek demo_env (1755309229765063 / 2 ^ 44) demo_playing = Inr s1
          \<and> manual_seek_pos s1 = Some (6319113227154227 / 2 ^ 45)
          \<and> track_ended s1 (6319113227154227 / 2 ^ 45)
          \<and> curr_lbl (update_loop demo_env 0 12345 s1) = ''00:00''
          \<and> \<not> playing (update_loop demo_env 0 12345 s1))
   \<and> (\<exists>s1. on_seek demo_env 100 demo_playing = Inr s1
          \<and> manual_seek_pos s1 = Some 180
          \<and> track_ended s1 180
          \<and> curr_lbl (update_loop demo_env 0 12345 s1) = ''00:00''
          \<and> \<not> playing (update_loop demo_env 0 12345 s1))"
proof -
  have h: "playing demo_playing" "\<not> paused demo_playing" "0 < length_sec demo_playing"
    "idx demo_playing = Some 0" "(0::int) \<le> 0" "0 < int (length (playlist demo_playing))"
    and l: "length_sec demo_playing = 180"
    and o: "repeat demo_playing = Off" "next_stops demo_playing"
    by (simp_all add: demo_playing_eq next_stops_def)
  have len: "length_sec s1 = 180" if "on_seek demo_env v demo_playing = Inr s1" for v s1
    using that
    by (auto simp: on_seek_def py_index_def known_def demo_playing_eq demo_env_def Let_def)
  have v35: "(0::real) \<le> 35" "(35::real) \<le> 100" by simp_all
  from C4_seek_then_tick [OF h(1-6) v35, of demo_env]
  obtain s1 where s1: "on_seek demo_env 35 demo_playing = Inr s1"
    "manual_seek_pos s1 = Some (fmul (fdiv 35 100) (length_sec demo_playing))"
    "manual_seek_pos (update_loop demo_env 0 12345 s1) = None"
    "\<not> (track_ended s1 (fmul (fdiv 35 100) (length_sec demo_playing))
         \<and> repeat demo_playing = Off \<and> next_stops demo_playing) \<longrightarrow>
       curr_lbl (update_loop demo_env 0 12345 s1)
         = format_time (fmul (fdiv 35 100) (length_sec demo_playing))"
    by blast
  have ne: "\<not> track_ended s1 (8866461766385663 / 2 ^ 47)"
    by (simp add: track_ended_def len [OF s1(1)] guard_180_normal)
  have ft: "format_time (8866461766385663 / 2 ^ 47) = ''01:02''" by (simp add: fmt_defs)
  from s1(2,4) [unfolded l seek_35] ne ft have a:
    "manual_seek_pos s1 = Some (8866461766385663 / 2 ^ 47)"
    "curr_lbl (update_loop demo_env 0 12345 s1) = ''01:02''"
    by simp_all
  have vb: "(0::real) \<le> 1755309229765063 / 2 ^ 44" "(1755309229765063::real) / 2 ^ 44 \<le> 100"
    by simp_all
  from C4_seek_then_tick [OF h(1-6) vb, of demo_env]
  obtain s2 where s2: "on_seek demo_env (1755309229765063 / 2 ^ 44) demo_playing = Inr s2"
    "manual_seek_pos s2
       = Some (fmul (fdiv (1755309229765063 / 2 ^ 44) 100) (length_sec demo_playing))"
    "track_ended s2 (fmul (fdiv (1755309229765063 / 2 ^ 44) 100) (length_sec demo_playing))
         \<and> repeat demo_playing = Off \<and> next_stops demo_playing \<longrightarrow>
       curr_lbl (update_loop demo_env 0 12345 s2) = ''00:00''
       \<and> \<not> playing (update_loop demo_env 0 12345 s2)"
    by blast
  have te2: "track_ended s2 (6319113227154227 / 2 ^ 45)"
    by (simp add: track_ended_def len [OF s2(1)] guard_180_normal)
  from s2(2,3) [unfolded l seek_boundary] te2 o have b:
    "manual_seek_pos s2 = Some (6319113227154227 / 2 ^ 45)"
    "curr_lbl (update_loop demo_env 0 12345 s2) = ''00:00''"
    "\<not> playing (update_loop demo_env 0 12345 s2)"
    by simp_all
  have vf: "(0::real) \<le> 100" "(100::real) \<le> 100" by simp_all
  from C4_seek_then_tick [OF h(1-6) vf, of demo_env]
  obtain s3 where s3: "on_seek demo_env 100 demo_playing = Inr s3"
    "manual_seek_pos s3 = Some (fmul (fdiv 100 100) (length_sec demo_playing))"
    "track_ended s3 (fmul (fdiv 100 100) (length_sec demo_playing))
         \<and> repeat demo_playing = Off \<and> next_stops demo_playing \<longrightarrow>
       curr_lbl (update_loop demo_env 0 12345 s3) = ''00:00''
       \<and> \<not> playing (update_loop demo_env 0 12345 s3)"
    by blast
  have te3: "track_ended s3 180"
    by (simp add: track_ended_def len [OF s3(1)] guard_180_normal)
  from s3(2,3) [unfolded l seek_100] te3 o have c:
    "manual_seek_pos s3 = Some 180"
    "curr_lbl (update_loop demo_env 0 12345 s3) = ''00:00''"
    "\<not> playing (update_loop demo_env 0 12345 s3)"
    by simp_all
  from h l o s1(1,3) ne a s2(1) te2 b s3(1) te3 c show ?thesis by blast
qed

text \<open>
  C4 as stated fails when the sought position reaches the guard interval: seeking the
  playing three-minute track to fraction 1 records the position 180, and the next tick
  takes the end-of-track branch, which with a single track and repeat off stops the
  player and resets the elapsed-time label to zero.
\<close>

theorem C4_seek_then_tick_counterexample:
  "playing demo_playing \<and> \<not> paused demo_playing \<and> length_sec demo_playing = 180
   \<and> on_seek demo_env 100 demo_playing = Inr demo_sought
   \<and> manual_seek_pos demo_sought = Some (100 / 100 * 180)
   \<and> format_time (100 / 100 * 180) = ''03:00''
   \<and> curr_lbl (update_loop demo_env 0 0 demo_sought) = ''00:00''
   \<and> curr_lbl (update_loop demo_env 0 0 demo_sought) \<noteq> format_time (100 / 100 * 180)
   \<and> \<not> playing (update_loop demo_env 0 0 demo_sought)"
proof -
  have sk: "on_seek demo_env 100 demo_playing
      = Inr (demo_playing\<lparr> calls := calls demo_playing @ [Play (Some 180)],
                            total_lbl := ''/ 03:00'', curr_lbl := ''03:00'',
                            slider := 100, manual_seek_pos := Some 180 \<rparr>)"
    by (simp add: on_seek_def py_index_def known_def demo_playing_eq demo_env_def seek_100
          slider_full fmt_defs)
  then have ds: "demo_sought
      = demo_playing\<lparr> calls := calls demo_playing @ [Play (Some 180)],
                       total_lbl := ''/ 03:00'', curr_lbl := ''03:00'',
                       slider := 100, manual_seek_pos := Some 180 \<rparr>"
    by (simp add: demo_sought_def)
  have tick: "curr_lbl (update_loop demo_env 0 0 demo_sought) = ''00:00''"
    "\<not> playing (update_loop demo_env 0 0 demo_sought)"
    by (simp_all add: ds demo_playing_eq update_loop_def tick_pos_def track_ended_def
          guard_180_normal next_song_def stop_song_def)
  have ft: "format_time (100 / 100 * 180) = ''03:00''" by (simp add: fmt_defs)
  have "playing demo_playing" "\<not> paused demo_playing" "length_sec demo_playing = 180"
    by (simp_all add: demo_playing_eq)
  moreover have "on_seek demo_env 100 demo_playing = Inr demo_sought" by (simp add: sk ds)
  moreover have "manual_seek_pos demo_sought = Some (100 / 100 * 180)" by (simp add: ds)
  ultimately show ?thesis using tick ft by simp
qed

text \<open>
  C5. In a Playing state with repeat mode \<open>one\<close> and known positive duration \<open>D\<close>, a
  tick whose position passes the end-of-track test of the code issues \<open>play\<close> again
  with no start offset and changes nothing else but the consumed pending position: the
  current index stays. The test is passed by every position that is a double and at
  least \<open>D - 0.4\<close>, so such a tick replays. When the duration is zero (unknown), the
  end-of-track test is false at every position, and a tick issues no transport call
  and keeps the index and both flags.
\<close>

theorem C5_end_of_track_repeat_one:
  "(playing s \<and> \<not> paused s \<and> repeat s = One \<and> 0 < length_sec s
      \<and> track_ended s (tick_pos ms s) \<longrightarrow>
        update_loop e r ms s = s\<lparr> manual_seek_pos := None, calls := calls s @ [Play None] \<rparr>
      \<and> idx (update_loop e r ms s) = idx s)
   \<and> (playing s \<and> \<not> paused s \<and> repeat s = One \<and> 0 < length_sec s
      \<and> round_double (tick_pos ms s) = tick_pos ms s
      \<and> length_sec s - 0.4 \<le> tick_pos ms s \<longrightarrow>
        update_loop e r ms s = s\<lparr> manual_seek_pos := None, calls := calls s @ [Play None] \<rparr>
      \<and> idx (update_loop e r ms s) = idx s)
   \<and> (length_sec s = 0 \<longrightarrow>
        \<not> track_ended s pos
      \<and> calls (update_loop e r ms s) = calls s \<and> idx (update_loop e r ms s) = idx s
      \<and> playing (update_loop e r ms s) = playing s
      \<and> paused (update_loop e r ms s) = paused s)"
proof -
  have replay: "update_loop e r ms s
        = s\<lparr> manual_seek_pos := None, calls := calls s @ [Play None] \<rparr>
      \<and> idx (update_loop e r ms s) = idx s"
    if "playing s" "\<not> paused s" "repeat s = One" "track_ended s (tick_pos ms s)"
  proof -
    have "track_ended (s\<lparr> manual_seek_pos := None \<rparr>) (tick_pos ms s)"
      using that(4) by (simp add: track_ended_def)
    with that(1-3) have "update_loop e r ms s
        = s\<lparr> manual_seek_pos := None, calls := calls s @ [Play None] \<rparr>"
      by (simp add: update_loop_def Let_def)
    then show ?thesis by simp
  qed
  have passes: "track_ended s (tick_pos ms s)"
    if "0 < length_sec s" "round_double (tick_pos ms s) = tick_pos ms s"
      "length_sec s - 0.4 \<le> tick_pos ms s"
  proof -
    have "length_sec s - round_double (4 / 10) \<le> length_sec s - 0.4"
      using four_tenths by simp
    also have "\<dots> \<le> tick_pos ms s" by (rule that(3))
    finally have "round_double (length_sec s - round_double (4 / 10)) \<le> tick_pos ms s"
      using round_double_below_double [OF tick_pos_nonneg that(2)] by blast
    with that(1) show ?thesis by (simp add: track_ended_def fsub_def)
  qed
  have zero: "\<not> track_ended s pos
      \<and> calls (update_loop e r ms s) = calls s \<and> idx (update_loop e r ms s) = idx s
      \<and> playing (update_loop e r ms s) = playing s
      \<and> paused (update_loop e r ms s) = paused s"
    if "length_sec s = 0"
    using that by (simp add: update_loop_def track_ended_def known_def Let_def)
  from replay passes zero show ?thesis by blast
qed

lemma demo_repeat_one_eq:
  "demo_repeat_one = demo_playing\<lparr> repeat := One \<rparr>"
  by (simp add: demo_repeat_one_def cycle_repeat_def demo_playing_eq)

lemma tick_179700: "fdiv 179700 1000 = 3161315832181555 / 2 ^ 44"
  by (simp add: float_defs fl_eval)

lemma tick_179700_double:
  "round_double (3161315832181555 / 2 ^ 44) = 3161315832181555 / 2 ^ 44"
  by (simp add: fl_eval)

theorem C5_end_of_track_repeat_one_witness:
  "playing demo_repeat_one \<and> \<not> paused demo_repeat_one \<and> repeat demo_repeat_one = One
   \<and> length_sec demo_repeat_one = 180
   \<and> tick_pos 179700 demo_repeat_one = 3161315832181555 / 2 ^ 44
   \<and> round_double (tick_pos 179700 demo_repeat_one) = tick_pos 179700 demo_repeat_one
   \<and> length_sec demo_repeat_one - 0.4 \<le> tick_pos 179700 demo_repeat_one
   \<and> track_ended demo_repeat_one (tick_pos 179700 demo_repeat_one)
   \<and> update_loop demo_env 0 179700 demo_repeat_one
       = demo_repeat_one\<lparr> manual_seek_pos := None,
                           calls := calls demo_repeat_one @ [Play None] \<rparr>
   \<and> idx (update_loop demo_env 0 179700 demo_repeat_one) = idx demo_repeat_one
   \<and> length_sec (demo_repeat_one\<lparr> length_sec := 0 \<rparr>) = 0
   \<and> calls (update_loop demo_env 0 179700 (demo_repeat_one\<lparr> length_sec := 0 \<rparr>))
       = calls (demo_repeat_one\<lparr> length_sec := 0 \<rparr>)"
proof -
  have h: "playing demo_repeat_one" "\<not> paused demo_repeat_one" "repeat demo_repeat_one = One"
    "length_sec demo_repeat_one = 180"
    by (simp_all add: demo_repeat_one_eq demo_playing_eq)
  have t: "tick_pos 179700 demo_repeat_one = 3161315832181555 / 2 ^ 44"
    unfolding tick_pos_def by (simp add: demo_repeat_one_eq demo_playing_eq tick_179700)
  have d: "round_double (tick_pos 179700 demo_repeat_one) = tick_pos 179700 demo_repeat_one"
    unfolding t by (rule tick_179700_double)
  have g: "0 < length_sec demo_repeat_one"
    "length_sec demo_repeat_one - 0.4 \<le> tick_pos 179700 demo_repeat_one"
    unfolding t by (simp_all add: h(4))
  have te: "track_ended demo_repeat_one (tick_pos 179700 demo_repeat_one)"
    unfolding t by (simp add: track_ended_def h(4) guard_180_normal)
  have z: "length_sec (demo_repeat_one\<lparr> length_sec := 0 \<rparr>) = 0" by simp
  from C5_end_of_track_repeat_one [of demo_repeat_one 179700 demo_env 0] h(1-3) g d
  have a: "update_loop demo_env 0 179700 demo_repeat_one
       = demo_repeat_one\<lparr> manual_seek_pos := None,
                           calls := calls demo_repeat_one @ [Play None] \<rparr>"
    "idx (update_loop demo_env 0 179700 demo_repeat_one) = idx demo_repeat_one"
    by blast+
  from C5_end_of_track_repeat_one [of "demo_repeat_one\<lparr> length_sec := 0 \<rparr>" 179700 demo_env 0] z
  have b: "calls (update_loop demo_env 0 179700 (demo_repeat_one\<lparr> length_sec := 0 \<rparr>))
       = calls (demo_repeat_one\<lparr> length_sec := 0 \<rparr>)"
    by blast
  from h t d g(2) te a b z show ?thesis by blast
qed

text \<open>
  C8, as amended. In every state whose \<open>playing\<close> flag is false (the Stopped state), a seek
  request changes nothing: no transport call is issued, and the index, the flags, the
  known duration and the pending manual position are as before.
\<close>

theorem C8_seek_when_stopped:
  assumes "\<not> playing s"
  shows "on_seek e val s = Inr s"
  using assms by (simp add: on_seek_def)

theorem C8_seek_when_stopped_witness:
  "\<not> playing (stop_song demo_playing) \<and> idx (stop_song demo_playing) = Some 0
   \<and> on_seek demo_env 50 (stop_song demo_playing) = Inr (stop_song demo_playing)"
proof -
  have h: "\<not> playing (stop_song demo_playing)" by (simp add: stop_song_def)
  have i: "idx (stop_song demo_playing) = Some 0"
    by (simp add: stop_song_def demo_playing_eq)
  from C8_seek_when_stopped [OF h, of demo_env 50] h i show ?thesis by blast
qed

text \<open>
  C8 as stated fails in the Paused state, where the \<open>playing\<close> flag is still set: the
  guard of \<open>_on_seek\<close> reads that flag alone. Seeking the paused three-minute track to
  50 percent issues \<open>play(start=90)\<close> and records the pending position 90.
\<close>

theorem C8_seek_when_stopped_counterexample:
  "playing demo_paused \<and> paused demo_paused
   \<and> on_seek demo_env 50 demo_paused
       = Inr (demo_paused\<lparr> calls := calls demo_paused @ [Play (Some 90)],
                            curr_lbl := ''01:30'', slider := 50,
                            manual_seek_pos := Some 90 \<rparr>)
   \<and> on_seek demo_env 50 demo_paused \<noteq> Inr demo_paused"
  by (simp add: demo_paused_def demo_playing_eq demo_env_def play_pause_def
        known_def on_seek_def py_index_def seek_50 slider_half fmt_defs)

subsection \<open>Adding paths, saving and loading\<close>

lemma new_paths_set:
  "set (new_paths pl paths) = {p \<in> set paths. p \<noteq> [] \<and> p \<notin> set pl}"
  by (auto simp: new_paths_def)

lemma new_paths_distinct: "distinct (new_paths pl paths)"
  by (simp add: new_paths_def)

text \<open>
  C9, as amended. For every input sequence of paths, \<open>_add_paths\<close> appends exactly the
  non-empty paths that the playlist does not hold yet (equality of strings), each once,
  in the order of their first occurrence in the input. When something was appended and
  the current index was unset, the current index becomes 0; otherwise it is unchanged,
  as is every other field. The call itself evaluates to \<open>None\<close>: whether anything was
  added is only used inside the method.
\<close>

theorem C9_add_paths_appends_new:
  "add_paths paths s =
     (PyNone, s\<lparr> playlist := playlist s @ new_paths (playlist s) paths,
                 idx := (if new_paths (playlist s) paths \<noteq> [] \<and> idx s = None
                         then Some 0 else idx s) \<rparr>)
   \<and> distinct (new_paths (playlist s) paths)
   \<and> set (new_paths (playlist s) paths) = {p \<in> set paths. p \<noteq> [] \<and> p \<notin> set (playlist s)}"
  using add_paths_eq [of paths s] new_paths_distinct [of "playlist s" paths]
    new_paths_set [of "playlist s" paths]
  by blast

text \<open>
  C9 as stated fails on the empty path, which is not in the empty playlist and still is
  not appended, so that the index stays unset although the store was empty; and after a
  call that did append a path the value returned is \<open>None\<close>, not the truth value.
\<close>

theorem C9_add_paths_appends_new_counterexample:
  "[] \<notin> set (playlist init)
   \<and> playlist (snd (add_paths [[]] init)) = playlist init
   \<and> idx init = None \<and> idx (snd (add_paths [[]] init)) = None
   \<and> playlist (snd (add_paths [''a.mp3''] init)) = [''a.mp3'']
   \<and> fst (add_paths [''a.mp3''] init) = PyNone
   \<and> fst (add_paths [''a.mp3''] init) \<noteq> PyBool True"
  by (simp add: add_paths_def init_def)

lemma add_paths_playlist_ok:
  assumes "distinct (playlist s)" "[] \<notin> set (playlist s)"
  shows "distinct (playlist (snd (add_paths paths s)))
         \<and> [] \<notin> set (playlist (snd (add_paths paths s)))"
  using assms by (auto simp: add_paths_eq new_paths_distinct new_paths_set)

lemma remove_selected_playlist_ok:
  assumes "distinct (playlist s)" "[] \<notin> set (playlist s)" "remove_selected sel s = Inr s'"
  shows "distinct (playlist s') \<and> [] \<notin> set (playlist s')"
proof (cases sel)
  case Nil
  with assms show ?thesis by (simp add: remove_selected_def)
next
  case (Cons i rest)
  with assms(3) have i: "i < length (playlist s)"
    by (auto simp: remove_selected_def split: if_splits)
  with Cons assms(3) have pl: "playlist s' = take i (playlist s) @ drop (Suc i) (playlist s)"
    by (auto simp: remove_selected_def stop_song_def Let_def split: if_splits option.splits)
  have "set (take i (playlist s)) \<inter> set (drop (Suc i) (playlist s)) = {}"
    using assms(1) by (simp add: set_take_disj_set_drop_if_distinct)
  then have "distinct (playlist s')"
    using assms(1) by (simp add: pl)
  moreover have "[] \<notin> set (playlist s')"
    using assms(2) by (auto simp: pl dest: in_set_takeD in_set_dropD)
  ultimately show ?thesis by blast
qed

lemma clear_playlist_empty: "playlist (clear_playlist s) = []"
  by (simp add: clear_playlist_def stop_song_def)

lemma load_playlist_ok:
  assumes "distinct (playlist s)" "[] \<notin> set (playlist s)"
  shows "distinct (playlist (load_playlist d s)) \<and> [] \<notin> set (playlist (load_playlist d s))"
proof (cases d)
  case (PathList data)
  have "distinct (playlist (clear_playlist s))" "[] \<notin> set (playlist (clear_playlist s))"
    by (simp_all add: clear_playlist_empty)
  then show ?thesis
    using add_paths_playlist_ok [of "clear_playlist s" data] PathList
    by (simp add: load_playlist_def)
qed (use assms in \<open>simp_all add: load_playlist_def clear_playlist_empty\<close>)

lemma start_playback_playlist: "playlist (start_playback e s) = playlist s"
  by (cases "load_track e (idx s) s") (auto simp: start_playback_def dest: load_track_frame(2))

lemma play_selected_playlist: "playlist (play_selected e sel s) = playlist s"
  by (simp add: play_selected_def start_playback_playlist split: option.splits)

lemma play_pause_playlist: "playlist (play_pause e s) = playlist s"
  by (simp add: play_pause_def start_playback_playlist)

lemma next_song_playlist: "playlist (next_song e r s) = playlist s"
  by (simp add: next_song_def start_playback_playlist stop_song_def split: option.splits)

lemma prev_song_playlist: "prev_song e s = Inr s' \<Longrightarrow> playlist s' = playlist s"
  by (auto simp: prev_song_def start_playback_playlist split: if_splits option.splits)

lemma on_seek_playlist: "on_seek e val s = Inr s' \<Longrightarrow> playlist s' = playlist s"
  by (auto simp: on_seek_def Let_def split: if_splits option.splits sum.splits)

lemma update_loop_playlist: "playlist (update_loop e r ms s) = playlist s"
  by (simp add: update_loop_def Let_def next_song_playlist)

text \<open>Every playlist the player can hold is duplicate-free and has no empty path: the
  only append is the guarded one in \<open>_add_paths\<close>.\<close>

lemma reachable_playlist_ok:
  "reachable s \<Longrightarrow> distinct (playlist s) \<and> [] \<notin> set (playlist s)"
proof (induction rule: reachable.induct)
  case r_init
  show ?case by (simp add: init_def)
next
  case (r_add s paths)
  then show ?case using add_paths_playlist_ok [of s paths] by blast
next
  case (r_remove s sel s')
  then show ?case using remove_selected_playlist_ok [of s sel s'] by blast
next
  case (r_clear s)
  show ?case by (simp add: clear_playlist_empty)
next
  case (r_load s d)
  then show ?case using load_playlist_ok [of s d] by blast
next
  case (r_play_selected s e name)
  then show ?case by (simp add: play_selected_playlist)
next
  case (r_play_pause s e)
  then show ?case by (simp add: play_pause_playlist)
next
  case (r_stop s)
  then show ?case by (simp add: stop_song_def)
next
  case (r_next s e r)
  then show ?case by (simp add: next_song_playlist)
next
  case (r_prev s e s')
  then show ?case by (simp add: prev_song_playlist)
next
  case (r_seek s e val s')
  then show ?case by (simp add: on_seek_playlist)
next
  case (r_volume s v)
  then show ?case by (simp add: set_volume_def)
next
  case (r_shuffle s)
  then show ?case by (simp add: toggle_shuffle_def)
next
  case (r_repeat s)
  then show ?case by (simp add: cycle_repeat_def)
next
  case (r_tick s e r ms)
  then show ?case by (simp add: update_loop_playlist)
qed

lemma round_trip_of_ok:
  assumes "distinct P" and "[] \<notin> set P"
  shows "playlist (load_playlist (PathList P) s') = P"
proof -
  have "playlist (load_playlist (PathList P) s') = new_paths [] P"
    by (simp add: load_playlist_def add_paths_eq clear_playlist_empty)
  with assms show ?thesis by (simp add: new_paths_distinct_id)
qed

text \<open>
  C7. Let the playlist contain exactly the paths \<open>P\<close>, in any state the player can
  reach; such a list is always duplicate-free, as the claim asks. Saving it and then
  loading the saved file, into any state of the player, yields a playlist equal to \<open>P\<close>,
  in the same order.
\<close>

theorem C7_save_load_round_trip:
  assumes "reachable s" and "playlist s = P"
  shows "distinct P \<and> save_playlist True s d = PathList P
         \<and> playlist (load_playlist (save_playlist True s d) s') = P"
proof -
  from reachable_playlist_ok [OF assms(1)] assms(2)
  have ok: "distinct P" "[] \<notin> set P" by simp_all
  have sv: "save_playlist True s d = PathList P"
    by (simp add: save_playlist_def assms(2))
  from round_trip_of_ok [OF ok, of s'] ok(1) sv show ?thesis by simp
qed

theorem C7_save_load_round_trip_witness:
  "reachable demo_two \<and> playlist demo_two = [''a.mp3'', ''b.mp3'']
   \<and> playlist demo_playing = [''a.mp3'']
   \<and> save_playlist True demo_two NoFile = PathList [''a.mp3'', ''b.mp3'']
   \<and> playlist (load_playlist (save_playlist True demo_two NoFile) demo_playing)
       = [''a.mp3'', ''b.mp3'']"
proof -
  have r: "reachable demo_two"
    unfolding demo_two_def by (rule r_add [OF r_init])
  have p: "playlist demo_two = [''a.mp3'', ''b.mp3'']"
    by (simp add: demo_two_def add_paths_def init_def)
  have q: "playlist demo_playing = [''a.mp3'']" by (simp add: demo_playing_eq)
  from C7_save_load_round_trip [OF r p, of NoFile demo_playing] r p q show ?thesis by blast
qed


end
